theory Spec2Isabelle
  imports Complex_Main
begin

section \<open>Arrays, errors and loops\<close>

text \<open>
  The polynomial algebra of \<^verbatim>\<open>algorithms/center/polynomial/algebra.py\<close> works on
  one-dimensional NumPy arrays of complex coefficients. An array is modelled as a list,
  a coefficient as an exact complex number (rounding of \<^verbatim>\<open>complex128\<close> is not
  modelled), a tolerance as a real number. An index outside an array raises
  \<^verbatim>\<open>IndexError\<close> in Python; every read and write of the model is bounds-checked
  and the error is a value (\<open>ResonanceError\<close> is the failure of the homological
  equation on a small divisor; \<open>UndefinedBehaviour\<close> is not an exception, see
  \<open>rd_unchecked\<close> below). A function that mutates an argument returns the new
  contents of that argument.
\<close>

datatype error = IndexError | ResonanceError | UndefinedBehaviour

definition bind_err :: "error + 'a \<Rightarrow> ('a \<Rightarrow> error + 'b) \<Rightarrow> error + 'b" where
  "bind_err m f = (case m of Inl e \<Rightarrow> Inl e | Inr x \<Rightarrow> f x)"

definition rd :: "'a list \<Rightarrow> nat \<Rightarrow> error + 'a" where
  "rd xs i = (if i < length xs then Inr (xs ! i) else Inl IndexError)"

definition wr :: "'a list \<Rightarrow> nat \<Rightarrow> 'a \<Rightarrow> error + 'a list" where
  "wr xs i v = (if i < length xs then Inr (xs[i := v]) else Inl IndexError)"

text \<open>
  \<^verbatim>\<open>for i in range(n): body\<close> over a state \<open>s\<close>: iterations \<open>0, ..., n - 1\<close> in
  order, the first error ends the loop.
\<close>

primrec for_range :: "nat \<Rightarrow> (nat \<Rightarrow> 's \<Rightarrow> error + 's) \<Rightarrow> 's \<Rightarrow> error + 's" where
  "for_range 0 body s = Inr s"
| "for_range (Suc n) body s = bind_err (for_range n body s) (body n)"

section \<open>Element-wise operations\<close>

text \<open>
  \<^verbatim>\<open>
  def _poly_add(p, q, out):
      for i in range(p.shape[0]):
          out[i] = p[i] + q[i]
  def _poly_scale(p, alpha, out):
      for i in range(p.shape[0]):
          out[i] = alpha * p[i]
  \<close>
  Both return \<^verbatim>\<open>None\<close>; the model returns the final contents of \<^verbatim>\<open>out\<close>.

  Both are compiled with \<^verbatim>\<open>@njit\<close>, and the docstrings say that they work "without any
  validation checks": no length is compared and no index is checked. An index inside
  its array reads or writes that entry. An index outside its array raises nothing: the
  compiled code reads or writes the memory next to the array, and what it finds or
  destroys there is not determined by the source. The accessors \<open>rd_unchecked\<close> and
  \<open>wr_unchecked\<close> give such an access the value \<open>Inl UndefinedBehaviour\<close>, which stands
  for "no result is determined", not for an exception; nothing is proved about a run
  that reaches it.
\<close>

definition rd_unchecked :: "'a list \<Rightarrow> nat \<Rightarrow> error + 'a" where
  "rd_unchecked xs i = (if i < length xs then Inr (xs ! i) else Inl UndefinedBehaviour)"

definition wr_unchecked :: "'a list \<Rightarrow> nat \<Rightarrow> 'a \<Rightarrow> error + 'a list" where
  "wr_unchecked xs i v = (if i < length xs then Inr (xs[i := v]) else Inl UndefinedBehaviour)"

definition poly_add :: "complex list \<Rightarrow> complex list \<Rightarrow> complex list \<Rightarrow> error + complex list" where
  "poly_add p q out =
     for_range (length p)
       (\<lambda>i out. bind_err (rd_unchecked p i) (\<lambda>pi. bind_err (rd_unchecked q i) (\<lambda>qi.
          wr_unchecked out i (pi + qi)))) out"

definition poly_scale :: "complex list \<Rightarrow> complex \<Rightarrow> complex list \<Rightarrow> error + complex list" where
  "poly_scale p alpha out =
     for_range (length p)
       (\<lambda>i out. bind_err (rd_unchecked p i) (\<lambda>pi. wr_unchecked out i (alpha * pi))) out"

text \<open>
  \<^verbatim>\<open>
  def _poly_clean_inplace(p, tol):
      for i in range(p.shape[0]):
          if np.abs(p[i]) <= tol:
              p[i] = 0
  def _poly_clean(p, tol, out):
      for i in range(p.shape[0]):
          if np.abs(p[i]) <= tol:
              out[i] = 0
          else:
              out[i] = p[i]
  \<close>
  \<^verbatim>\<open>np.abs\<close> of a complex number is its modulus. The in-place variant returns the
  final contents of \<^verbatim>\<open>p\<close>, the other one the final contents of \<^verbatim>\<open>out\<close>.
\<close>

definition poly_clean_inplace :: "complex list \<Rightarrow> real \<Rightarrow> error + complex list" where
  "poly_clean_inplace p tol =
     for_range (length p)
       (\<lambda>i p. bind_err (rd p i) (\<lambda>c. if cmod c \<le> tol then wr p i 0 else Inr p)) p"

definition poly_clean :: "complex list \<Rightarrow> real \<Rightarrow> complex list \<Rightarrow> error + complex list" where
  "poly_clean p tol out =
     for_range (length p)
       (\<lambda>i out. bind_err (rd p i) (\<lambda>c. if cmod c \<le> tol then wr out i 0 else wr out i c)) out"

section \<open>Index tables\<close>

text \<open>
  The algebra addresses coefficients through three tables that every function receives
  as arguments: \<^verbatim>\<open>psi\<close> (a two-dimensional array, \<^verbatim>\<open>psi[v, d]\<close> the number of
  monomials of degree \<open>d\<close> in \<open>v\<close> variables), \<^verbatim>\<open>clmo\<close> (for every degree the array of
  the packed exponent tuples, in position order) and \<^verbatim>\<open>encode_dict_list\<close> (for every
  degree the dictionary from packed tuple to position). The module that builds and
  reads them, \<^verbatim>\<open>algorithms/center/polynomial/base.py\<close>, is not among the sources;
  its functions are modelled from the specification, and the tables stay arguments as
  in the code. An exponent is a natural number, an exponent tuple a list.
\<close>

definition N_VARS :: nat where
  "N_VARS = 6"

definition rd2 :: "'a list list \<Rightarrow> nat \<Rightarrow> nat \<Rightarrow> error + 'a" where
  "rd2 a i j = bind_err (rd a i) (\<lambda>row. rd row j)"

text \<open>
  Modelled from the spec: the packing of an exponent tuple into an integer code, missing
  with \<^verbatim>\<open>base.py\<close>. The spec fixes no layout ("e.g., a fixed-width bit-field per
  exponent"), only that code and tuple determine each other; the model stores the tuple
  itself as its code.

  Modelled from the spec: \<^verbatim>\<open>decode_multiindex(pos, degree, clmo)\<close>, missing with
  \<^verbatim>\<open>base.py\<close>: "inverse lookup; fails (returns a sentinel / raises) if position is
  out of \<open>[0, psi[N_VARS, degree])\<close>". \<^verbatim>\<open>fill_exponents(pos, degree, clmo, k_vec)\<close>
  stores the same tuple in the array \<^verbatim>\<open>k_vec\<close>.
\<close>

definition decode_multiindex :: "nat \<Rightarrow> nat \<Rightarrow> nat list list list \<Rightarrow> error + nat list" where
  "decode_multiindex pos degree clmo = bind_err (rd clmo degree) (\<lambda>codes. rd codes pos)"

definition fill_exponents :: "nat \<Rightarrow> nat \<Rightarrow> nat list list list \<Rightarrow> error + nat list" where
  "fill_exponents pos degree clmo = decode_multiindex pos degree clmo"

text \<open>
  Modelled from the spec: \<^verbatim>\<open>encode_multiindex(k, degree, encode_dict_list)\<close>, missing
  with \<^verbatim>\<open>base.py\<close>: "returns \<open>-1\<close> when the tuple's degree does not match \<open>degree\<close> or
  the tuple's packed code is absent from that degree's reverse map"; a degree beyond
  the tables is the case "exceeding the configured maximum degree table", also \<open>-1\<close>.
\<close>

definition encode_multiindex :: "nat list \<Rightarrow> nat \<Rightarrow> (nat list \<rightharpoonup> nat) list \<Rightarrow> int" where
  "encode_multiindex k degree encode_dict_list =
     (if degree < length encode_dict_list \<and> sum_list k = degree
      then (case (encode_dict_list ! degree) k of None \<Rightarrow> - 1 | Some pos \<Rightarrow> int pos)
      else - 1)"

text \<open>
  Modelled from the spec: \<^verbatim>\<open>_create_encode_dict_from_clmo(clmo)\<close>, missing with
  \<^verbatim>\<open>base.py\<close>: "a derived reverse-map from packed code to position, one per degree,
  built once from \<open>clmo\<close>".
\<close>

definition create_encode_dict_from_clmo :: "nat list list list \<Rightarrow> (nat list \<rightharpoonup> nat) list" where
  "create_encode_dict_from_clmo clmo = map (\<lambda>codes. map_of (zip codes [0..<length codes])) clmo"

text \<open>
  Modelled from the spec: \<^verbatim>\<open>init_index_tables(max_degree)\<close>, missing with
  \<^verbatim>\<open>base.py\<close>: "computes \<open>psi\<close> by the standard stars-and-bars recurrence and
  enumerates, for every degree \<open>0..max_degree\<close>, every exponent tuple summing to that
  degree in a fixed canonical order (e.g., lexicographic over the 6-tuple)".
\<close>

fun psi_val :: "nat \<Rightarrow> nat \<Rightarrow> nat" where
  "psi_val 0 0 = 1"
| "psi_val 0 (Suc d) = 0"
| "psi_val (Suc v) 0 = 1"
| "psi_val (Suc v) (Suc d) = psi_val v (Suc d) + psi_val (Suc v) d"

fun monomials :: "nat \<Rightarrow> nat \<Rightarrow> nat list list" where
  "monomials 0 d = (if d = 0 then [[]] else [])"
| "monomials (Suc v) d = concat (map (\<lambda>k. map ((#) k) (monomials v (d - k))) [0..<Suc d])"

definition init_index_tables :: "nat \<Rightarrow> nat list list \<times> nat list list list" where
  "init_index_tables max_degree =
     (map (\<lambda>v. map (psi_val v) [0..<Suc max_degree]) [0..<Suc N_VARS],
      map (monomials N_VARS) [0..<Suc max_degree])"

text \<open>
  The invariants of section 3 of the spec for tables built up to degree \<open>D\<close>: the array
  of degree \<open>d\<close> has \<^verbatim>\<open>psi[N_VARS, d]\<close> entries, lists every tuple of six exponents of
  sum \<open>d\<close> once, and the dictionaries are the reverse maps of \<^verbatim>\<open>clmo\<close>. The order of
  the tuples is not fixed.
\<close>

definition tables_ok ::
  "nat \<Rightarrow> nat list list \<Rightarrow> nat list list list \<Rightarrow> (nat list \<rightharpoonup> nat) list \<Rightarrow> bool" where
  "tables_ok D psi clmo encode_dict_list \<longleftrightarrow>
     length psi = Suc N_VARS \<and> length (psi ! N_VARS) = Suc D \<and> length clmo = Suc D
     \<and> encode_dict_list = create_encode_dict_from_clmo clmo
     \<and> (\<forall>d\<le>D. length (clmo ! d) = psi ! N_VARS ! d \<and> distinct (clmo ! d)
            \<and> set (clmo ! d) = {k. length k = N_VARS \<and> sum_list k = d})"

section \<open>Multiplication, differentiation, Poisson bracket, integration\<close>

text \<open>
  \<^verbatim>\<open>_poly_mul\<close> and \<^verbatim>\<open>_poly_diff\<close> run their outer loop under \<^verbatim>\<open>prange\<close>: every
  iteration adds into the row \<^verbatim>\<open>scratch[tid]\<close> of the thread that runs it, and the rows
  are summed afterwards. The model takes the number of threads \<open>nT\<close>
  (\<^verbatim>\<open>get_num_threads()\<close>) and the thread of every iteration \<open>tid_of i\<close>
  (\<^verbatim>\<open>get_thread_id()\<close>) as arguments and runs the iterations in index order; as no two
  threads share a row and coefficients are exact, the order of the iterations does not
  change the rows.
\<close>

definition add_at2 :: "complex list list \<Rightarrow> nat \<Rightarrow> nat \<Rightarrow> complex \<Rightarrow> error + complex list list" where
  "add_at2 scratch tid idx v =
     bind_err (rd scratch tid) (\<lambda>row.
     bind_err (rd row idx) (\<lambda>x.
     bind_err (wr row idx (x + v)) (\<lambda>row'. wr scratch tid row')))"

definition add_at :: "complex list \<Rightarrow> nat \<Rightarrow> complex \<Rightarrow> error + complex list" where
  "add_at a idx v = bind_err (rd a idx) (\<lambda>x. wr a idx (x + v))"

text \<open>
  \<^verbatim>\<open>r = np.zeros(out_len); for tid in range(nT): r += scratch[tid]\<close>
\<close>

definition reduce_rows :: "nat \<Rightarrow> nat \<Rightarrow> complex list list \<Rightarrow> error + complex list" where
  "reduce_rows nT out_len scratch =
     for_range nT (\<lambda>tid r. bind_err (rd scratch tid) (\<lambda>row. Inr (map2 (+) r row)))
       (replicate out_len 0)"

text \<open>
  \<^verbatim>\<open>ks = np.empty(N_VARS); for m in range(N_VARS): ks[m] = ki[m] + kj[m]\<close>
\<close>

definition add_exponents :: "nat list \<Rightarrow> nat list \<Rightarrow> error + nat list" where
  "add_exponents ki kj =
     for_range N_VARS
       (\<lambda>m ks. bind_err (rd ki m) (\<lambda>a. bind_err (rd kj m) (\<lambda>b. wr ks m (a + b))))
       (replicate N_VARS 0)"

text \<open>
  \<^verbatim>\<open>
  def _poly_mul(p, deg_p, q, deg_q, psi, clmo, encode_dict_list):
      deg_r = deg_p + deg_q
      out_len = psi[N_VARS, deg_r]
      nT = get_num_threads()
      scratch = np.zeros((nT, out_len), dtype=p.dtype)
      for i in prange(p.shape[0]):
          tid = get_thread_id()
          pi = p[i]
          if pi == 0:
              continue
          ki = decode_multiindex(i, deg_p, clmo)
          for j in range(q.shape[0]):
              qj = q[j]
              if qj == 0:
                  continue
              kj = decode_multiindex(j, deg_q, clmo)
              ks = np.empty(N_VARS, dtype=np.int64)
              for m in range(N_VARS):
                  ks[m] = ki[m] + kj[m]
              idx = encode_multiindex(ks, deg_r, encode_dict_list)
              if idx != -1:
                  scratch[tid, idx] += pi * qj
      r = np.zeros(out_len, dtype=p.dtype)
      for tid in range(nT):
          r += scratch[tid]
      return r
  \<close>
\<close>

definition poly_mul ::
  "nat \<Rightarrow> (nat \<Rightarrow> nat) \<Rightarrow> complex list \<Rightarrow> nat \<Rightarrow> complex list \<Rightarrow> nat \<Rightarrow>
   nat list list \<Rightarrow> nat list list list \<Rightarrow> (nat list \<rightharpoonup> nat) list \<Rightarrow> error + complex list" where
  "poly_mul nT tid_of p deg_p q deg_q psi clmo encode_dict_list =
     (let deg_r = deg_p + deg_q in
      bind_err (rd2 psi N_VARS deg_r) (\<lambda>out_len.
      bind_err
        (for_range (length p) (\<lambda>i scratch.
           let tid = tid_of i in
           bind_err (rd p i) (\<lambda>pi.
           if pi = 0 then Inr scratch
           else
             bind_err (decode_multiindex i deg_p clmo) (\<lambda>ki.
             for_range (length q) (\<lambda>j scratch.
               bind_err (rd q j) (\<lambda>qj.
               if qj = 0 then Inr scratch
               else
                 bind_err (decode_multiindex j deg_q clmo) (\<lambda>kj.
                 bind_err (add_exponents ki kj) (\<lambda>ks.
                 let idx = encode_multiindex ks deg_r encode_dict_list in
                 if idx \<noteq> - 1 then add_at2 scratch tid (nat idx) (pi * qj)
                 else Inr scratch)))) scratch)))
           (replicate nT (replicate out_len 0)))
        (\<lambda>scratch. reduce_rows nT out_len scratch)))"

text \<open>
  \<^verbatim>\<open>
  def _poly_diff(p, var, degree, psi, clmo, encode_dict_list):
      if degree == 0:
          out_size = psi[N_VARS, 0]
          return np.zeros(out_size, dtype=p.dtype)
      out_size = psi[N_VARS, degree - 1]
      nT = get_num_threads()
      scratch = np.zeros((nT, out_size), dtype=p.dtype)
      scratch_exp = np.empty(6, dtype=np.int64)
      for i in prange(p.shape[0]):
          tid = get_thread_id()
          coeff = p[i]
          if coeff == 0:
              continue
          k_vec = np.empty(6, dtype=np.int64)
          fill_exponents(i, degree, clmo, k_vec)
          exp = k_vec[var]
          if exp == 0:
              continue
          k_vec[var] = exp - 1
          idx = encode_multiindex(k_vec, degree - 1, encode_dict_list)
          if idx != -1:
              scratch[tid, idx] += coeff * exp
          scratch_exp[var] = exp
      dp = np.zeros(out_size, dtype=p.dtype)
      for tid in range(nT):
          dp += scratch[tid]
      return dp
  \<close>
  The array \<^verbatim>\<open>scratch_exp\<close> is written and never read; its write at \<^verbatim>\<open>var\<close> follows
  a read of \<^verbatim>\<open>k_vec[var]\<close> of the same length, so it raises nothing new and is left
  out of the model.
\<close>

definition poly_diff ::
  "nat \<Rightarrow> (nat \<Rightarrow> nat) \<Rightarrow> complex list \<Rightarrow> nat \<Rightarrow> nat \<Rightarrow>
   nat list list \<Rightarrow> nat list list list \<Rightarrow> (nat list \<rightharpoonup> nat) list \<Rightarrow> error + complex list" where
  "poly_diff nT tid_of p var degree psi clmo encode_dict_list =
     (if degree = 0 then
        bind_err (rd2 psi N_VARS 0) (\<lambda>out_size. Inr (replicate out_size 0))
      else
        bind_err (rd2 psi N_VARS (degree - 1)) (\<lambda>out_size.
        bind_err
          (for_range (length p) (\<lambda>i scratch.
             let tid = tid_of i in
             bind_err (rd p i) (\<lambda>coeff.
             if coeff = 0 then Inr scratch
             else
               bind_err (fill_exponents i degree clmo) (\<lambda>k_vec.
               bind_err (rd k_vec var) (\<lambda>exp.
               if exp = 0 then Inr scratch
               else
                 bind_err (wr k_vec var (exp - 1)) (\<lambda>k_vec.
                 let idx = encode_multiindex k_vec (degree - 1) encode_dict_list in
                 if idx \<noteq> - 1 then add_at2 scratch tid (nat idx) (coeff * of_nat exp)
                 else Inr scratch)))))
             (replicate nT (replicate out_size 0)))
          (\<lambda>scratch. reduce_rows nT out_size scratch)))"

text \<open>
  \<^verbatim>\<open>
  def _poly_poisson(p, deg_p, q, deg_q, psi, clmo, encode_dict_list):
      if deg_p == 0 or deg_q == 0:
          ...
          return np.zeros(psi[N_VARS, 0], dtype=p.dtype)
      deg_r = deg_p + deg_q - 2
      if deg_r < 0:
          deg_r = 0
      r = np.zeros(psi[N_VARS, deg_r], dtype=p.dtype)
      for m in range(3):
          if deg_p >= 1: dpx = _poly_diff(p, m, deg_p, ...)
          else:          dpx = np.zeros(psi[N_VARS, 0], dtype=p.dtype)
          if deg_q >= 1: dqqp = _poly_diff(q, m+3, deg_q, ...)
          else:          dqqp = np.zeros(psi[N_VARS, 0], dtype=q.dtype)
          deg_dpx = max(0, deg_p-1)
          deg_dqqp = max(0, deg_q-1)
          term1 = _poly_mul(dpx, deg_dpx, dqqp, deg_dqqp, ...)
          if term1.shape[0] == r.shape[0]:
              r += term1
          if deg_p >= 1: dpq = _poly_diff(p, m+3, deg_p, ...)
          else:          dpq = np.zeros(psi[N_VARS,0], dtype=p.dtype)
          if deg_q >= 1: dqx = _poly_diff(q, m, deg_q, ...)
          else:          dqx = np.zeros(psi[N_VARS,0], dtype=q.dtype)
          deg_dpq = max(0, deg_p-1)
          deg_dqx = max(0, deg_q-1)
          term2 = _poly_mul(dpq, deg_dpq, dqx, deg_dqx, ...)
          if term2.shape[0] == r.shape[0]:
              r -= term2
      return r
  \<close>
  Past the first test both degrees are at least one, so \<^verbatim>\<open>deg_p + deg_q - 2\<close> is not
  negative and the degrees \<^verbatim>\<open>max(0, deg - 1)\<close> are \<^verbatim>\<open>deg - 1\<close>; the tests on the
  degrees inside the loop are kept as they are written.
\<close>

definition zeros_psi0 :: "nat list list \<Rightarrow> error + complex list" where
  "zeros_psi0 psi = bind_err (rd2 psi N_VARS 0) (\<lambda>n. Inr (replicate n 0))"

definition poly_poisson ::
  "nat \<Rightarrow> (nat \<Rightarrow> nat) \<Rightarrow> complex list \<Rightarrow> nat \<Rightarrow> complex list \<Rightarrow> nat \<Rightarrow>
   nat list list \<Rightarrow> nat list list list \<Rightarrow> (nat list \<rightharpoonup> nat) list \<Rightarrow> error + complex list" where
  "poly_poisson nT tid_of p deg_p q deg_q psi clmo encode_dict_list =
     (if deg_p = 0 \<or> deg_q = 0 then zeros_psi0 psi
      else
        let deg_r = deg_p + deg_q - 2 in
        bind_err (rd2 psi N_VARS deg_r) (\<lambda>n.
        for_range 3 (\<lambda>m r.
          bind_err (if 1 \<le> deg_p then poly_diff nT tid_of p m deg_p psi clmo encode_dict_list
                    else zeros_psi0 psi) (\<lambda>dpx.
          bind_err (if 1 \<le> deg_q then poly_diff nT tid_of q (m + 3) deg_q psi clmo encode_dict_list
                    else zeros_psi0 psi) (\<lambda>dqqp.
          let deg_dpx = max 0 (deg_p - 1); deg_dqqp = max 0 (deg_q - 1) in
          bind_err (poly_mul nT tid_of dpx deg_dpx dqqp deg_dqqp psi clmo encode_dict_list) (\<lambda>term1.
          let r = (if length term1 = length r then map2 (+) r term1 else r) in
          bind_err (if 1 \<le> deg_p then poly_diff nT tid_of p (m + 3) deg_p psi clmo encode_dict_list
                    else zeros_psi0 psi) (\<lambda>dpq.
          bind_err (if 1 \<le> deg_q then poly_diff nT tid_of q m deg_q psi clmo encode_dict_list
                    else zeros_psi0 psi) (\<lambda>dqx.
          let deg_dpq = max 0 (deg_p - 1); deg_dqx = max 0 (deg_q - 1) in
          bind_err (poly_mul nT tid_of dpq deg_dpq dqx deg_dqx psi clmo encode_dict_list) (\<lambda>term2.
          Inr (if length term2 = length r then map2 (-) r term2 else r))))))))
          (replicate n 0)))"

text \<open>
  \<^verbatim>\<open>
  def _poly_integrate(p, var, degree, psi, clmo, encode_dict_list):
      out_degree = degree + 1
      out_size = psi[N_VARS, out_degree]
      ip = np.zeros(out_size, dtype=p.dtype)
      for i in range(p.shape[0]):
          coeff = p[i]
          if coeff == 0:
              continue
          k_vec = np.empty(6, dtype=np.int64)
          fill_exponents(i, degree, clmo, k_vec)
          k_integrated = k_vec.copy()
          k_integrated[var] += 1
          new_coeff = coeff / (k_vec[var] + 1)
          idx = encode_multiindex(k_integrated, out_degree, encode_dict_list)
          if idx != -1:
              ip[idx] += new_coeff
      return ip
  \<close>
\<close>

definition poly_integrate ::
  "complex list \<Rightarrow> nat \<Rightarrow> nat \<Rightarrow>
   nat list list \<Rightarrow> nat list list list \<Rightarrow> (nat list \<rightharpoonup> nat) list \<Rightarrow> error + complex list" where
  "poly_integrate p var degree psi clmo encode_dict_list =
     (let out_degree = degree + 1 in
      bind_err (rd2 psi N_VARS out_degree) (\<lambda>out_size.
      for_range (length p) (\<lambda>i ip.
        bind_err (rd p i) (\<lambda>coeff.
        if coeff = 0 then Inr ip
        else
          bind_err (fill_exponents i degree clmo) (\<lambda>k_vec.
          bind_err (rd k_vec var) (\<lambda>e.
          bind_err (wr k_vec var (e + 1)) (\<lambda>k_integrated.
          bind_err (rd k_vec var) (\<lambda>e'.
          let new_coeff = coeff / of_nat (e' + 1);
              idx = encode_multiindex k_integrated out_degree encode_dict_list in
          if idx \<noteq> - 1 then add_at ip (nat idx) new_coeff else Inr ip))))))
        (replicate out_size 0)))"

section \<open>Restriction to the centre manifold\<close>

text \<open>
  \<^verbatim>\<open>
  def _restrict_to_center_manifold(self, poly_H, tol=1e-14):
      poly_cm = [h.copy() for h in poly_H]
      for deg, coeff_vec in enumerate(poly_cm):
          if coeff_vec.size == 0:
              continue
          for pos, c in enumerate(coeff_vec):
              if abs(c) <= tol:
                  coeff_vec[pos] = 0.0
                  continue
              k = _decode_multiindex(pos, deg, self._clmo)
              if k[0] != 0 or k[3] != 0:
                  coeff_vec[pos] = 0.0
      return poly_cm
  \<close>
  (\<^verbatim>\<open>hiten/system/center.py\<close>). A graded polynomial is the list of its blocks, block
  \<open>deg\<close> the coefficient array of degree \<open>deg\<close>. The method works on copies of the blocks,
  so the model, which returns the new blocks, leaves its argument as it is.
\<close>

definition restrict_block :: "nat list list list \<Rightarrow> real \<Rightarrow> nat \<Rightarrow> complex list \<Rightarrow> error + complex list" where
  "restrict_block clmo tol deg coeff_vec =
     for_range (length coeff_vec) (\<lambda>pos coeff_vec.
       bind_err (rd coeff_vec pos) (\<lambda>c.
       if cmod c \<le> tol then wr coeff_vec pos 0
       else
         bind_err (decode_multiindex pos deg clmo) (\<lambda>k.
         bind_err (rd k 0) (\<lambda>k0.
         if k0 \<noteq> 0 then wr coeff_vec pos 0
         else bind_err (rd k 3) (\<lambda>k3.
              if k3 \<noteq> 0 then wr coeff_vec pos 0 else Inr coeff_vec)))))
       coeff_vec"

definition restrict_to_center_manifold ::
  "nat list list list \<Rightarrow> complex list list \<Rightarrow> real \<Rightarrow> error + complex list list" where
  "restrict_to_center_manifold clmo poly_H tol =
     for_range (length poly_H) (\<lambda>deg poly_cm.
       bind_err (rd poly_cm deg) (\<lambda>coeff_vec.
       if length coeff_vec = 0 then Inr poly_cm
       else bind_err (restrict_block clmo tol deg coeff_vec) (\<lambda>coeff_vec. wr poly_cm deg coeff_vec)))
       poly_H"

section \<open>Notions used in the statements\<close>

text \<open>
  What a call needs from the tables to stay inside its arrays. \<open>decodable clmo degree len\<close>:
  the positions \<open>0, ..., len - 1\<close> exist at this degree and hold tuples of
  \<^verbatim>\<open>N_VARS\<close> exponents. \<open>dict_within\<close>: every position that
  \<^verbatim>\<open>encode_multiindex\<close> returns at this degree lies inside an array of length \<open>n\<close>.
  \<open>encode_inj\<close>: no two tuples are encoded to the same position.
\<close>

definition decodable :: "nat list list list \<Rightarrow> nat \<Rightarrow> nat \<Rightarrow> bool" where
  "decodable clmo degree len \<longleftrightarrow>
     degree < length clmo \<and> len \<le> length (clmo ! degree)
     \<and> (\<forall>i<len. length (clmo ! degree ! i) = N_VARS)"

definition dict_within :: "(nat list \<rightharpoonup> nat) list \<Rightarrow> nat \<Rightarrow> nat \<Rightarrow> bool" where
  "dict_within encode_dict_list degree n \<longleftrightarrow>
     (\<forall>k. encode_multiindex k degree encode_dict_list < int n)"

definition encode_inj :: "(nat list \<rightharpoonup> nat) list \<Rightarrow> nat \<Rightarrow> bool" where
  "encode_inj encode_dict_list degree \<longleftrightarrow>
     (\<forall>k k'. encode_multiindex k degree encode_dict_list = encode_multiindex k' degree encode_dict_list
        \<longrightarrow> encode_multiindex k degree encode_dict_list = - 1 \<or> k = k')"

text \<open>
  The convolution sum of the spec at an exponent tuple \<open>k\<close>: the sum of \<open>p\<^sub>i * q\<^sub>j\<close> over
  all pairs \<open>(i, j)\<close> whose exponent tuples add to \<open>k\<close>.
\<close>

definition conv_coeff ::
  "nat list list list \<Rightarrow> complex list \<Rightarrow> nat \<Rightarrow> complex list \<Rightarrow> nat \<Rightarrow> nat list \<Rightarrow> complex" where
  "conv_coeff clmo p deg_p q deg_q k =
     (\<Sum>i<length p. \<Sum>j<length q.
        if map2 (+) (clmo ! deg_p ! i) (clmo ! deg_q ! j) = k then p ! i * q ! j else 0)"

text \<open>
  The per-thread buffer: \<open>shape nT n scratch\<close> says that it has \<open>nT\<close> rows of length
  \<open>n\<close>; \<open>colsum scratch idx\<close> is the sum of column \<open>idx\<close> over the rows, which is what
  the reduction stores at \<open>idx\<close>.
\<close>

definition shape :: "nat \<Rightarrow> nat \<Rightarrow> complex list list \<Rightarrow> bool" where
  "shape nT n scratch \<longleftrightarrow> length scratch = nT \<and> (\<forall>t<nT. length (scratch ! t) = n)"

definition colsum :: "complex list list \<Rightarrow> nat \<Rightarrow> complex" where
  "colsum scratch idx = (\<Sum>t<length scratch. scratch ! t ! idx)"

text \<open>
  The coefficient that the restriction leaves at position \<open>pos\<close> of the block \<open>v\<close> of
  degree \<open>deg\<close>.
\<close>

definition restricted :: "nat list list list \<Rightarrow> real \<Rightarrow> nat \<Rightarrow> complex list \<Rightarrow> nat \<Rightarrow> complex" where
  "restricted clmo tol deg v pos =
     (if cmod (v ! pos) \<le> tol \<or> clmo ! deg ! pos ! 0 \<noteq> 0 \<or> clmo ! deg ! pos ! 3 \<noteq> 0
      then 0 else v ! pos)"

text \<open>
  The two products that iteration \<open>m\<close> of \<^verbatim>\<open>_poly_poisson\<close> adds to and subtracts
  from its result, as arrays (the empty array if a call fails).
\<close>

definition poisson_term1 ::
  "nat \<Rightarrow> (nat \<Rightarrow> nat) \<Rightarrow> complex list \<Rightarrow> nat \<Rightarrow> complex list \<Rightarrow> nat \<Rightarrow>
   nat list list \<Rightarrow> nat list list list \<Rightarrow> (nat list \<rightharpoonup> nat) list \<Rightarrow> nat \<Rightarrow> complex list" where
  "poisson_term1 nT tid_of p deg_p q deg_q psi clmo enc m =
     (case poly_diff nT tid_of p m deg_p psi clmo enc of Inl e \<Rightarrow> [] | Inr dpx \<Rightarrow>
      case poly_diff nT tid_of q (m + 3) deg_q psi clmo enc of Inl e \<Rightarrow> [] | Inr dqqp \<Rightarrow>
      case poly_mul nT tid_of dpx (deg_p - 1) dqqp (deg_q - 1) psi clmo enc of
        Inl e \<Rightarrow> [] | Inr term1 \<Rightarrow> term1)"

definition poisson_term2 ::
  "nat \<Rightarrow> (nat \<Rightarrow> nat) \<Rightarrow> complex list \<Rightarrow> nat \<Rightarrow> complex list \<Rightarrow> nat \<Rightarrow>
   nat list list \<Rightarrow> nat list list list \<Rightarrow> (nat list \<rightharpoonup> nat) list \<Rightarrow> nat \<Rightarrow> complex list" where
  "poisson_term2 nT tid_of p deg_p q deg_q psi clmo enc m =
     (case poly_diff nT tid_of p (m + 3) deg_p psi clmo enc of Inl e \<Rightarrow> [] | Inr dpq \<Rightarrow>
      case poly_diff nT tid_of q m deg_q psi clmo enc of Inl e \<Rightarrow> [] | Inr dqx \<Rightarrow>
      case poly_mul nT tid_of dpq (deg_p - 1) dqx (deg_q - 1) psi clmo enc of
        Inl e \<Rightarrow> [] | Inr term2 \<Rightarrow> term2)"

section \<open>Linear substitution\<close>

text \<open>
  \<^verbatim>\<open>substitute_linear\<close> (\<^verbatim>\<open>algorithms/center/transforms.py\<close>) works on graded
  polynomials through the functions of \<^verbatim>\<open>algorithms/center/polynomial/operations.py\<close>,
  which is not among the sources. A list built by a comprehension or by \<^verbatim>\<open>append\<close> in
  a loop is \<open>map_err\<close>: the results in order, or the first error.
\<close>

primrec map_err :: "('a \<Rightarrow> error + 'b) \<Rightarrow> 'a list \<Rightarrow> error + 'b list" where
  "map_err f [] = Inr []"
| "map_err f (x # xs) = bind_err (f x) (\<lambda>y. bind_err (map_err f xs) (\<lambda>ys. Inr (y # ys)))"

text \<open>
  Modelled from the spec: \<^verbatim>\<open>polynomial_zero_list(max_deg, psi)\<close>, missing with
  \<^verbatim>\<open>operations.py\<close>: the graded polynomial zero, "an ordered sequence of homogeneous
  polynomials for degrees \<open>0..max_degree\<close>", block \<open>d\<close> "a dense array of
  \<open>psi[N_VARS, d]\<close> complex coefficients".
\<close>

definition polynomial_zero_list :: "nat \<Rightarrow> nat list list \<Rightarrow> error + complex list list" where
  "polynomial_zero_list max_deg psi =
     map_err (\<lambda>d. bind_err (rd2 psi N_VARS d) (\<lambda>n. Inr (replicate n 0))) [0..<Suc max_deg]"

text \<open>
  Modelled from the spec: \<^verbatim>\<open>polynomial_variable(j, max_deg, psi, clmo,
  encode_dict_list)\<close>, missing with \<^verbatim>\<open>operations.py\<close>: "the variable-polynomial
  constructor", the graded polynomial of the variable \<open>var\<^sub>j\<close>: coefficient one at the
  exponent tuple of degree one with exponent one at \<open>j\<close>.
\<close>

definition polynomial_variable ::
  "nat \<Rightarrow> nat \<Rightarrow> nat list list \<Rightarrow> nat list list list \<Rightarrow> (nat list \<rightharpoonup> nat) list
   \<Rightarrow> error + complex list list" where
  "polynomial_variable j max_deg psi clmo encode_dict_list =
     bind_err (polynomial_zero_list max_deg psi) (\<lambda>poly.
     if max_deg < 1 then Inr poly
     else
       let idx = encode_multiindex ((replicate N_VARS 0)[j := 1]) 1 encode_dict_list in
       if idx \<noteq> - 1 then
         bind_err (rd poly 1) (\<lambda>blk. bind_err (wr blk (nat idx) 1) (\<lambda>blk. wr poly 1 blk))
       else Inr poly)"

text \<open>
  Modelled from the spec: \<^verbatim>\<open>polynomial_add_inplace(a, b, scale, max_deg)\<close>, missing
  with \<^verbatim>\<open>operations.py\<close>: "repeatedly adding scaled terms into one accumulator", block
  by block and element-wise, \<open>a[d][i] += scale * b[d][i]\<close> for the degrees \<open>0..max_deg\<close>.
\<close>

definition polynomial_add_inplace ::
  "complex list list \<Rightarrow> complex list list \<Rightarrow> complex \<Rightarrow> nat \<Rightarrow> error + complex list list" where
  "polynomial_add_inplace a b scale max_deg =
     for_range (Suc max_deg) (\<lambda>d a.
       bind_err (rd a d) (\<lambda>ad.
       bind_err (rd b d) (\<lambda>bd.
       bind_err (for_range (length bd) (\<lambda>i ad.
                   bind_err (rd ad i) (\<lambda>x. bind_err (rd bd i) (\<lambda>y. wr ad i (x + scale * y)))) ad)
         (\<lambda>ad. wr a d ad)))) a"

text \<open>
  Modelled from the spec: \<^verbatim>\<open>polynomial_multiply(a, b, max_deg, psi, clmo,
  encode_dict_list)\<close>, missing with \<^verbatim>\<open>operations.py\<close>: the product of two graded
  polynomials truncated at \<open>max_deg\<close>: the block of degree \<open>d1 + d2 \<le> max_deg\<close> collects
  the products \<^verbatim>\<open>_poly_mul(a[d1], d1, b[d2], d2)\<close>.
\<close>

definition polynomial_multiply ::
  "nat \<Rightarrow> (nat \<Rightarrow> nat) \<Rightarrow> complex list list \<Rightarrow> complex list list \<Rightarrow> nat \<Rightarrow>
   nat list list \<Rightarrow> nat list list list \<Rightarrow> (nat list \<rightharpoonup> nat) list \<Rightarrow> error + complex list list" where
  "polynomial_multiply nT tid_of a b max_deg psi clmo encode_dict_list =
     bind_err (polynomial_zero_list max_deg psi) (\<lambda>r.
     for_range (Suc max_deg) (\<lambda>d1 r.
       bind_err (rd a d1) (\<lambda>a1.
       for_range (Suc max_deg - d1) (\<lambda>d2 r.
         bind_err (rd b d2) (\<lambda>b2.
         bind_err (poly_mul nT tid_of a1 d1 b2 d2 psi clmo encode_dict_list) (\<lambda>prod.
         bind_err (rd r (d1 + d2)) (\<lambda>rd12.
         bind_err (poly_add rd12 prod rd12) (\<lambda>rd12. wr r (d1 + d2) rd12))))) r)) r)"

text \<open>
  Modelled from the spec: \<^verbatim>\<open>polynomial_power(p, k, max_deg, psi, clmo,
  encode_dict_list)\<close>, missing with \<^verbatim>\<open>operations.py\<close>: the image of a variable
  "raised to the monomial's exponents", the \<open>k\<close>-fold truncated product; the power zero is
  the constant one.
\<close>

primrec polynomial_power ::
  "nat \<Rightarrow> (nat \<Rightarrow> nat) \<Rightarrow> complex list list \<Rightarrow> nat \<Rightarrow> nat \<Rightarrow>
   nat list list \<Rightarrow> nat list list list \<Rightarrow> (nat list \<rightharpoonup> nat) list \<Rightarrow> error + complex list list" where
  "polynomial_power nT tid_of p 0 max_deg psi clmo encode_dict_list =
     bind_err (polynomial_zero_list max_deg psi) (\<lambda>one.
     bind_err (rd one 0) (\<lambda>blk. bind_err (wr blk 0 1) (\<lambda>blk. wr one 0 blk)))"
| "polynomial_power nT tid_of p (Suc k) max_deg psi clmo encode_dict_list =
     bind_err (polynomial_power nT tid_of p k max_deg psi clmo encode_dict_list) (\<lambda>q.
     polynomial_multiply nT tid_of q p max_deg psi clmo encode_dict_list)"

text \<open>
  Modelled from the spec: \<^verbatim>\<open>polynomial_clean(poly, tol)\<close>, missing with
  \<^verbatim>\<open>operations.py\<close>: "\<open>clean(p, tol) -> out\<close>: zero any coefficient with magnitude
  \<open>\<le> tol\<close>", for every block by \<^verbatim>\<open>_poly_clean\<close> into a fresh array of the length of
  the block.
\<close>

definition polynomial_clean :: "complex list list \<Rightarrow> real \<Rightarrow> error + complex list list" where
  "polynomial_clean poly tol =
     map_err (\<lambda>p. poly_clean p tol (replicate (length p) 0)) poly"

text \<open>
  \<^verbatim>\<open>
  def _linear_variable_polys(C, max_deg, psi, clmo, encode_dict_list):
      new_basis = [polynomial_variable(j, max_deg, psi, clmo, encode_dict_list) for j in range(6)]
      L = []
      for i in range(6):
          poly_result = polynomial_zero_list(max_deg, psi)
          for j in range(6):
              if C[i, j] == 0:
                  continue
              polynomial_add_inplace(poly_result, new_basis[j], C[i, j], max_deg)
          L.append(poly_result)
      return L
  \<close>
  The matrix \<open>C\<close> is the list of its rows.
\<close>

definition linear_variable_polys ::
  "complex list list \<Rightarrow> nat \<Rightarrow> nat list list \<Rightarrow> nat list list list \<Rightarrow> (nat list \<rightharpoonup> nat) list
   \<Rightarrow> error + complex list list list" where
  "linear_variable_polys C max_deg psi clmo encode_dict_list =
     bind_err (map_err (\<lambda>j. polynomial_variable j max_deg psi clmo encode_dict_list) [0..<6])
       (\<lambda>new_basis.
     map_err (\<lambda>i.
       bind_err (polynomial_zero_list max_deg psi) (\<lambda>poly_result.
       for_range 6 (\<lambda>j poly_result.
         bind_err (rd2 C i j) (\<lambda>cij.
         if cij = 0 then Inr poly_result
         else bind_err (rd new_basis j) (\<lambda>bj. polynomial_add_inplace poly_result bj cij max_deg)))
         poly_result)) [0..<6])"

text \<open>
  \<^verbatim>\<open>
  def substitute_linear(poly_old, C, max_deg, psi, clmo, encode_dict_list):
      var_polys = _linear_variable_polys(C, max_deg, psi, clmo, encode_dict_list)
      poly_new = polynomial_zero_list(max_deg, psi)
      for deg in range(max_deg + 1):
          p = poly_old[deg]
          if not p.any():
              continue
          for pos, coeff in enumerate(p):
              if coeff == 0:
                  continue
              k = decode_multiindex(pos, deg, clmo)
              term = polynomial_zero_list(max_deg, psi)
              if len(term) > 0 and term[0].size > 0:
                  term[0][0] = coeff
              elif coeff != 0:
                  pass
              for i_var in range(6):
                  if k[i_var] == 0:
                      continue
                  pwr = polynomial_power(var_polys[i_var], k[i_var], max_deg, psi, clmo, encode_dict_list)
                  term = polynomial_multiply(term, pwr, max_deg, psi, clmo, encode_dict_list)
              polynomial_add_inplace(poly_new, term, 1.0, max_deg)
      return polynomial_clean(poly_new, 1e-14)
  \<close>
  \<open>substitute_linear_terms\<close> is the function up to its last line: the accumulated
  \<^verbatim>\<open>poly_new\<close> before cleaning.
\<close>

definition substitute_linear_terms ::
  "nat \<Rightarrow> (nat \<Rightarrow> nat) \<Rightarrow> complex list list \<Rightarrow> complex list list \<Rightarrow> nat \<Rightarrow>
   nat list list \<Rightarrow> nat list list list \<Rightarrow> (nat list \<rightharpoonup> nat) list \<Rightarrow> error + complex list list" where
  "substitute_linear_terms nT tid_of poly_old C max_deg psi clmo encode_dict_list =
     bind_err (linear_variable_polys C max_deg psi clmo encode_dict_list) (\<lambda>var_polys.
     bind_err (polynomial_zero_list max_deg psi) (\<lambda>poly_new.
     for_range (max_deg + 1) (\<lambda>deg poly_new.
       bind_err (rd poly_old deg) (\<lambda>p.
       if \<not> (\<exists>c\<in>set p. c \<noteq> 0) then Inr poly_new
       else
         for_range (length p) (\<lambda>pos poly_new.
           bind_err (rd p pos) (\<lambda>coeff.
           if coeff = 0 then Inr poly_new
           else
             bind_err (decode_multiindex pos deg clmo) (\<lambda>k.
             bind_err (polynomial_zero_list max_deg psi) (\<lambda>term.
             bind_err (if length term > 0 \<and> length (term ! 0) > 0
                       then wr term 0 ((term ! 0)[0 := coeff]) else Inr term) (\<lambda>term.
             bind_err (for_range 6 (\<lambda>i_var term.
                         bind_err (rd k i_var) (\<lambda>e.
                         if e = 0 then Inr term
                         else
                           bind_err (rd var_polys i_var) (\<lambda>vp.
                           bind_err (polynomial_power nT tid_of vp e max_deg psi clmo encode_dict_list)
                             (\<lambda>pwr.
                           polynomial_multiply nT tid_of term pwr max_deg psi clmo encode_dict_list)))) term)
               (\<lambda>term. polynomial_add_inplace poly_new term 1 max_deg)))))) poly_new)) poly_new))"

definition substitute_linear ::
  "nat \<Rightarrow> (nat \<Rightarrow> nat) \<Rightarrow> complex list list \<Rightarrow> complex list list \<Rightarrow> nat \<Rightarrow>
   nat list list \<Rightarrow> nat list list list \<Rightarrow> (nat list \<rightharpoonup> nat) list \<Rightarrow> error + complex list list" where
  "substitute_linear nT tid_of poly_old C max_deg psi clmo encode_dict_list =
     bind_err (substitute_linear_terms nT tid_of poly_old C max_deg psi clmo encode_dict_list)
       (\<lambda>poly_new. polynomial_clean poly_new (1 / 10 ^ 14))"

section \<open>The homological equation\<close>

text \<open>
  Modelled from the spec: \<^verbatim>\<open>_solve_homological_equation(Hn_bad, n, eta, clmo)\<close>
  of \<^verbatim>\<open>algorithms/center/lie.py\<close>, which is not among the sources: "for each bad-term
  exponent tuple \<open>k\<close>, the coefficient of \<open>G_n\<close> at \<open>k\<close> is
  \<open>-H_n_bad[k] / (\<lambda>(k[3]-k[0]) + i\<omega>1(k[4]-k[1]) + i\<omega>2(k[5]-k[2]))\<close>; good-term positions of
  \<open>G_n\<close> are exactly zero", a term being bad "iff \<open>k[0] != k[3]\<close>"; "division by a
  combination too close to zero is a resonance and must be surfaced as an error". The
  array \<^verbatim>\<open>eta\<close> holds \<open>\<lambda>, i\<omega>1, i\<omega>2\<close>. The spec leaves the threshold of a resonance to
  the implementation; it is the argument \<open>eps\<close>.
\<close>

definition solve_homological_equation ::
  "complex list \<Rightarrow> nat \<Rightarrow> complex list \<Rightarrow> nat list list list \<Rightarrow> real \<Rightarrow> error + complex list" where
  "solve_homological_equation Hn_bad n eta clmo eps =
     for_range (length Hn_bad) (\<lambda>i G.
       bind_err (rd Hn_bad i) (\<lambda>c.
       bind_err (decode_multiindex i n clmo) (\<lambda>k.
       bind_err (rd k 0) (\<lambda>k0. bind_err (rd k 1) (\<lambda>k1. bind_err (rd k 2) (\<lambda>k2.
       bind_err (rd k 3) (\<lambda>k3. bind_err (rd k 4) (\<lambda>k4. bind_err (rd k 5) (\<lambda>k5.
       if k0 = k3 then Inr G
       else
         bind_err (rd eta 0) (\<lambda>eta0. bind_err (rd eta 1) (\<lambda>eta1. bind_err (rd eta 2) (\<lambda>eta2.
         let denom = of_int (int k3 - int k0) * eta0 + of_int (int k4 - int k1) * eta1
                       + of_int (int k5 - int k2) * eta2 in
         if cmod denom < eps then Inl ResonanceError
         else wr G i (- c / denom)))))))))))))
       (replicate (length Hn_bad) 0)"

text \<open>
  \<^verbatim>\<open>
  H2_list = polynomial_zero_list(max_deg, psi)
  idx = encode_multiindex((1,0,0,1,0,0), 2, encode_dict)
  H2_list[2][idx] = lam
  idx = encode_multiindex((0,1,0,0,1,0), 2, encode_dict)
  H2_list[2][idx] = 1j*w1
  idx = encode_multiindex((0,0,1,0,0,1), 2, encode_dict)
  H2_list[2][idx] = 1j*w2
  \<close>
  (\<^verbatim>\<open>test_homological_property\<close> in \<^verbatim>\<open>algorithms/center/_tests/test_lie.py\<close>): the
  block of degree two of \<open>H\<^sub>2 = \<lambda> q\<^sub>1 p\<^sub>1 + i\<omega>\<^sub>1 q\<^sub>2 p\<^sub>2 + i\<omega>\<^sub>2 q\<^sub>3 p\<^sub>3\<close>. A negative index
  counts from the end of the array, as in Python.
\<close>

definition wr_py :: "'a list \<Rightarrow> int \<Rightarrow> 'a \<Rightarrow> error + 'a list" where
  "wr_py xs i v =
     (if 0 \<le> i then wr xs (nat i) v
      else if - i \<le> int (length xs) then wr xs (nat (int (length xs) + i)) v
      else Inl IndexError)"

definition H2_block ::
  "real \<Rightarrow> real \<Rightarrow> real \<Rightarrow> nat list list \<Rightarrow> (nat list \<rightharpoonup> nat) list \<Rightarrow> error + complex list" where
  "H2_block lam w1 w2 psi encode_dict_list =
     bind_err (rd2 psi N_VARS 2) (\<lambda>n.
     bind_err (wr_py (replicate n 0) (encode_multiindex [1, 0, 0, 1, 0, 0] 2 encode_dict_list)
                 (of_real lam)) (\<lambda>h.
     bind_err (wr_py h (encode_multiindex [0, 1, 0, 0, 1, 0] 2 encode_dict_list)
                 (\<i> * of_real w1)) (\<lambda>h.
     wr_py h (encode_multiindex [0, 0, 1, 0, 0, 1] 2 encode_dict_list) (\<i> * of_real w2))))"

text \<open>
  The coefficient of \<open>H\<^sub>2\<close> at an exponent tuple, and the divisor of the homological
  equation at an exponent tuple.
\<close>

definition H2_coeff :: "real \<Rightarrow> real \<Rightarrow> real \<Rightarrow> nat list \<Rightarrow> complex" where
  "H2_coeff lam w1 w2 k =
     (if k = [1, 0, 0, 1, 0, 0] then of_real lam
      else if k = [0, 1, 0, 0, 1, 0] then \<i> * of_real w1
      else if k = [0, 0, 1, 0, 0, 1] then \<i> * of_real w2 else 0)"

definition divisor :: "real \<Rightarrow> real \<Rightarrow> real \<Rightarrow> nat list \<Rightarrow> complex" where
  "divisor lam w1 w2 k =
     of_int (int (k ! 3) - int (k ! 0)) * of_real lam
     + of_int (int (k ! 4) - int (k ! 1)) * (\<i> * of_real w1)
     + of_int (int (k ! 5) - int (k ! 2)) * (\<i> * of_real w2)"

section \<open>Basic facts\<close>

lemma bind_err_Inr [simp]: "bind_err (Inr x) f = f x"
  by (simp add: bind_err_def)

lemma bind_err_Inl [simp]: "bind_err (Inl e) f = Inl e"
  by (simp add: bind_err_def)

lemma rd_in [simp]: "i < length xs \<Longrightarrow> rd xs i = Inr (xs ! i)"
  by (simp add: rd_def)

lemma rd_out [simp]: "\<not> i < length xs \<Longrightarrow> rd xs i = Inl IndexError"
  by (simp add: rd_def)

lemma wr_in [simp]: "i < length xs \<Longrightarrow> wr xs i v = Inr (xs[i := v])"
  by (simp add: wr_def)

lemma wr_out [simp]: "\<not> i < length xs \<Longrightarrow> wr xs i v = Inl IndexError"
  by (simp add: wr_def)

text \<open>An invariant rule for loops that cannot fail.\<close>

lemma for_range_rule:
  assumes init: "I 0 s"
    and step: "\<And>i t. i < n \<Longrightarrow> I i t \<Longrightarrow> \<exists>t'. body i t = Inr t' \<and> I (Suc i) t'"
  shows "\<exists>t. for_range n body s = Inr t \<and> I n t"
proof -
  have "m \<le> n \<Longrightarrow> \<exists>t. for_range m body s = Inr t \<and> I m t" for m
  proof (induction m)
    case 0
    show ?case using init by simp
  next
    case (Suc m)
    then obtain t where t: "for_range m body s = Inr t" "I m t" by auto
    from Suc.prems step [of m t] t(2) obtain t' where "body m t = Inr t'" "I (Suc m) t'"
      by auto
    with t(1) show ?case by simp
  qed
  then show ?thesis by simp
qed

text \<open>The same rule when the loop is known to have returned.\<close>

lemma for_range_result:
  assumes ret: "for_range n body s = Inr t"
    and init: "I 0 s"
    and step: "\<And>i u u'. i < n \<Longrightarrow> I i u \<Longrightarrow> body i u = Inr u' \<Longrightarrow> I (Suc i) u'"
  shows "I n t"
proof -
  have "m \<le> n \<Longrightarrow> for_range m body s = Inr u \<Longrightarrow> I m u" for m u
  proof (induction m arbitrary: u)
    case 0
    then show ?case using init by simp
  next
    case (Suc m)
    from Suc.prems(2) obtain v where v: "for_range m body s = Inr v" "body m v = Inr u"
      by (cases "for_range m body s") auto
    from Suc.IH [OF _ v(1)] Suc.prems(1) have "I m v" by simp
    with step [of m v u] v(2) Suc.prems(1) show ?case by simp
  qed
  with ret show ?thesis by blast
qed

lemma for_range_error:
  assumes "m \<le> n" "for_range m body s = Inl e"
  shows "for_range n body s = Inl e"
  using assms by (induction n) (auto simp: le_Suc_eq)

section \<open>Cleaning\<close>

lemma poly_clean_loop:
  "m \<le> length p \<Longrightarrow> m \<le> length out \<Longrightarrow>
   for_range m (\<lambda>i out. bind_err (rd p i) (\<lambda>c. if cmod c \<le> tol then wr out i 0 else wr out i c)) out
     = Inr (map (\<lambda>i. if cmod (p ! i) \<le> tol then 0 else p ! i) [0..<m] @ drop m out)"
proof (induction m)
  case 0
  then show ?case by simp
next
  case (Suc m)
  then show ?case
    by (simp add: list_update_append Cons_nth_drop_Suc [symmetric] upd_conv_take_nth_drop)
qed

lemma poly_clean_inplace_loop:
  "m \<le> length p \<Longrightarrow>
   for_range m (\<lambda>i p. bind_err (rd p i) (\<lambda>c. if cmod c \<le> tol then wr p i 0 else Inr p)) p
     = Inr (map (\<lambda>i. if cmod (p ! i) \<le> tol then 0 else p ! i) [0..<m] @ drop m p)"
proof (induction m)
  case 0
  then show ?case by simp
next
  case (Suc m)
  then show ?case
    by (simp add: list_update_append nth_append Cons_nth_drop_Suc [symmetric] upd_conv_take_nth_drop)
qed

text \<open>
  C10. The out-of-place and the in-place cleaning compute the same coefficients: for
  every array \<open>p\<close>, every tolerance and every output array that can hold \<open>p\<close>, the
  entries written by \<^verbatim>\<open>_poly_clean\<close> are exactly the array that
  \<^verbatim>\<open>_poly_clean_inplace\<close> leaves in a copy of \<open>p\<close>: a coefficient of modulus at
  most the tolerance becomes zero, every other one is unchanged. Entries of the output
  array beyond the length of \<open>p\<close> are not touched.
\<close>

theorem poly_clean_refines_inplace:
  assumes "length p \<le> length out"
  shows "\<exists>r. poly_clean p tol out = Inr r \<and> length r = length out
           \<and> poly_clean_inplace p tol = Inr (take (length p) r)
           \<and> drop (length p) r = drop (length p) out
           \<and> (\<forall>i<length p. r ! i = (if cmod (p ! i) \<le> tol then 0 else p ! i))"
proof -
  let ?c = "map (\<lambda>i. if cmod (p ! i) \<le> tol then 0 else p ! i) [0..<length p]"
  have out: "poly_clean p tol out = Inr (?c @ drop (length p) out)"
    unfolding poly_clean_def using assms by (rule poly_clean_loop [OF le_refl])
  have inpl: "poly_clean_inplace p tol = Inr ?c"
    unfolding poly_clean_inplace_def using poly_clean_inplace_loop [of "length p" p tol] by simp
  show ?thesis
    using assms by (simp add: out inpl nth_append)
qed

theorem poly_clean_refines_inplace_witness:
  "length [1, 2, 0 :: complex] \<le> length [5, 5, 5, 5 :: complex]
   \<and> (\<exists>r. poly_clean [1, 2, 0] 1 [5, 5, 5, 5] = Inr r
         \<and> length r = length [5, 5, 5, 5 :: complex]
         \<and> poly_clean_inplace [1, 2, 0] 1 = Inr (take (length [1, 2, 0 :: complex]) r)
         \<and> drop (length [1, 2, 0 :: complex]) r = drop (length [1, 2, 0 :: complex]) [5, 5, 5, 5]
         \<and> (\<forall>i<length [1, 2, 0 :: complex].
               r ! i = (if cmod ([1, 2, 0] ! i) \<le> 1 then 0 else [1, 2, 0] ! i)))"
proof -
  have len: "length [1, 2, 0 :: complex] \<le> length [5, 5, 5, 5 :: complex]" by simp
  show ?thesis
    by (intro conjI len poly_clean_refines_inplace)
qed

section \<open>Addition and scaling\<close>

lemma rd_unchecked_in [simp]: "i < length xs \<Longrightarrow> rd_unchecked xs i = Inr (xs ! i)"
  by (simp add: rd_unchecked_def)

lemma wr_unchecked_in [simp]: "i < length xs \<Longrightarrow> wr_unchecked xs i v = Inr (xs[i := v])"
  by (simp add: wr_unchecked_def)

lemma poly_add_loop:
  "m \<le> length p \<Longrightarrow> m \<le> length q \<Longrightarrow> m \<le> length out \<Longrightarrow>
   for_range m (\<lambda>i out. bind_err (rd_unchecked p i) (\<lambda>pi. bind_err (rd_unchecked q i) (\<lambda>qi.
      wr_unchecked out i (pi + qi)))) out
     = Inr (map (\<lambda>i. p ! i + q ! i) [0..<m] @ drop m out)"
proof (induction m)
  case 0
  then show ?case by simp
next
  case (Suc m)
  then show ?case
    by (simp add: list_update_append Cons_nth_drop_Suc [symmetric] upd_conv_take_nth_drop)
qed

lemma poly_scale_loop:
  "m \<le> length p \<Longrightarrow> m \<le> length out \<Longrightarrow>
   for_range m (\<lambda>i out. bind_err (rd_unchecked p i) (\<lambda>pi. wr_unchecked out i (alpha * pi))) out
     = Inr (map (\<lambda>i. alpha * p ! i) [0..<m] @ drop m out)"
proof (induction m)
  case 0
  then show ?case by simp
next
  case (Suc m)
  then show ?case
    by (simp add: list_update_append Cons_nth_drop_Suc [symmetric] upd_conv_take_nth_drop)
qed

text \<open>
  C9 (as stated): arrays of different lengths make \<^verbatim>\<open>_poly_add\<close> and
  \<^verbatim>\<open>_poly_scale\<close> fail. They do not: neither function compares lengths, and with
  \<open>q\<close> and \<open>out\<close> longer than \<open>p\<close> both return normally.
\<close>

theorem poly_add_scale_mismatch_counterexample:
  "length [1 :: complex] \<noteq> length [2, 3 :: complex]
   \<and> poly_add [1] [2, 3] [0, 0] = Inr [3, 0]
   \<and> length [1 :: complex] \<noteq> length [0, 0 :: complex]
   \<and> poly_scale [1] 2 [0, 0] = Inr [2, 0]"
  by (simp add: poly_add_def poly_scale_def)

text \<open>
  C9 (amended): \<^verbatim>\<open>_poly_add\<close> and \<^verbatim>\<open>_poly_scale\<close> loop over the indices of \<open>p\<close>
  and compare no lengths. Whenever \<open>q\<close> and \<open>out\<close> are at least as long as \<open>p\<close>, of
  equal length or longer, they return normally and raise nothing: the first \<open>len(p)\<close>
  entries of \<open>out\<close> hold the sums (the scaled coefficients), the other entries of \<open>out\<close>
  are unchanged.
\<close>

theorem poly_add_scale_lengths:
  "(length p \<le> length q \<and> length p \<le> length out \<longrightarrow>
      poly_add p q out = Inr (map (\<lambda>i. p ! i + q ! i) [0..<length p] @ drop (length p) out))
   \<and> (length p \<le> length out \<longrightarrow>
      poly_scale p alpha out = Inr (map (\<lambda>i. alpha * p ! i) [0..<length p] @ drop (length p) out))"
  using poly_add_loop [of "length p" p q out] poly_scale_loop [of "length p" p out alpha]
  by (simp add: poly_add_def poly_scale_def)

theorem poly_add_scale_lengths_witness:
  "poly_add [1, 2] [10, 20, 30] [0, 0, 7] = Inr [11, 22, 7]
   \<and> poly_scale [1, 2] 3 [0, 0, 7] = Inr [3, 6, 7]"
  using poly_add_scale_lengths [of "[1, 2]" "[10, 20, 30]" "[0, 0, 7]" 3]
  by (simp add: upt_rec)

section \<open>The index tables\<close>


lemma set_monomials: "set (monomials v d) = {k. length k = v \<and> sum_list k = d}"
proof (induction v arbitrary: d)
  case 0
  show ?case by auto
next
  case (Suc v)
  show ?case
  proof (intro set_eqI iffI)
    fix ks assume "ks \<in> set (monomials (Suc v) d)"
    then show "ks \<in> {k. length k = Suc v \<and> sum_list k = d}"
      by (auto simp: Suc)
  next
    fix ks assume "ks \<in> {k. length k = Suc v \<and> sum_list k = d}"
    then obtain a t where ks: "ks = a # t" "length t = v" "a + sum_list t = d"
      by (auto simp: length_Suc_conv)
    then have "t \<in> set (monomials v (d - a))" "a < Suc d"
      by (auto simp: Suc)
    with ks(1) show "ks \<in> set (monomials (Suc v) d)"
      by (auto simp del: upt_Suc intro!: bexI [of _ a])
  qed
qed

lemma distinct_concat_upt:
  assumes "\<And>k. k < n \<Longrightarrow> distinct (f k)"
    and "\<And>k k'. k < n \<Longrightarrow> k' < k \<Longrightarrow> set (f k) \<inter> set (f k') = {}"
  shows "distinct (concat (map f [0..<n]))"
  using assms
proof (induction n)
  case 0
  show ?case by simp
next
  case (Suc n)
  have "distinct (concat (map f [0..<n]))"
  proof (rule Suc.IH)
    fix k assume "k < n"
    then show "distinct (f k)" using Suc.prems(1) [of k] by simp
  next
    fix k k' assume "k < n" "k' < k"
    then show "set (f k) \<inter> set (f k') = {}" using Suc.prems(2) [of k k'] by simp
  qed
  moreover have "x \<notin> set (f k')" if "k' < n" "x \<in> set (f n)" for k' x
    using Suc.prems(2) [of n k'] that by auto
  then have "set (f n) \<inter> set (concat (map f [0..<n])) = {}"
    by fastforce
  ultimately show ?case
    using Suc.prems(1) [of n] by (simp add: Int_commute)
qed

lemma distinct_monomials: "distinct (monomials v d)"
proof (induction v arbitrary: d)
  case 0
  show ?case by simp
next
  case (Suc v)
  show ?case
    unfolding monomials.simps
    by (rule distinct_concat_upt) (auto simp: distinct_map Suc)
qed

lemma psi_val_sum: "(\<Sum>k<Suc d. psi_val v (d - k)) = psi_val (Suc v) d"
proof (induction d)
  case 0
  show ?case by (cases v) simp_all
next
  case (Suc d)
  have "(\<Sum>k<Suc (Suc d). psi_val v (Suc d - k))
          = psi_val v (Suc d) + (\<Sum>k<Suc d. psi_val v (d - k))"
    by (subst sum.lessThan_Suc_shift) simp
  with Suc show ?case by simp
qed

lemma length_monomials: "length (monomials v d) = psi_val v d"
proof (induction v arbitrary: d)
  case 0
  show ?case by (cases d) simp_all
next
  case (Suc v)
  have "length (monomials (Suc v) d) = (\<Sum>k\<leftarrow>[0..<Suc d]. psi_val v (d - k))"
    by (simp add: length_concat comp_def Suc del: upt_Suc)
  also have "\<dots> = (\<Sum>k<Suc d. psi_val v (d - k))"
    by (simp add: interv_sum_list_conv_sum_set_nat atLeast0LessThan del: upt_Suc)
  finally show ?case by (simp only: psi_val_sum)
qed






lemma tables_ok_init:
  "tables_ok D (fst (init_index_tables D)) (snd (init_index_tables D))
     (create_encode_dict_from_clmo (snd (init_index_tables D)))"
  unfolding tables_ok_def init_index_tables_def
  by (simp add: set_monomials distinct_monomials length_monomials nth_append del: upt_Suc)

lemma dict_of_distinct:
  assumes "distinct codes"
  shows "map_of (zip codes [0..<length codes]) k = Some i \<longleftrightarrow> i < length codes \<and> codes ! i = k"
proof
  assume "map_of (zip codes [0..<length codes]) k = Some i"
  then have "(k, i) \<in> set (zip codes [0..<length codes])"
    by (rule map_of_SomeD)
  then show "i < length codes \<and> codes ! i = k"
    by (auto simp: in_set_zip)
next
  assume "i < length codes \<and> codes ! i = k"
  with map_of_zip_nth [of codes "[0..<length codes]" i] assms
  show "map_of (zip codes [0..<length codes]) k = Some i"
    by auto
qed

lemma encode_range: "encode_multiindex k d enc = - 1 \<or> 0 \<le> encode_multiindex k d enc"
  by (simp add: encode_multiindex_def split: option.splits)

lemma tables_ok_psi:
  assumes "tables_ok D psi clmo enc" "d \<le> D"
  shows "rd2 psi N_VARS d = Inr (length (clmo ! d))"
  using assms by (simp add: tables_ok_def rd2_def)

lemma tables_ok_tuple:
  assumes "tables_ok D psi clmo enc" "d \<le> D" "i < length (clmo ! d)"
  shows "length (clmo ! d ! i) = N_VARS" "sum_list (clmo ! d ! i) = d"
proof -
  from assms have "clmo ! d ! i \<in> {k. length k = N_VARS \<and> sum_list k = d}"
    unfolding tables_ok_def by (metis nth_mem)
  then show "length (clmo ! d ! i) = N_VARS" "sum_list (clmo ! d ! i) = d"
    by simp_all
qed

lemma tables_ok_decode:
  assumes "tables_ok D psi clmo enc" "d \<le> D" "i < length (clmo ! d)"
  shows "decode_multiindex i d clmo = Inr (clmo ! d ! i)"
  using assms by (simp add: tables_ok_def decode_multiindex_def)

lemma tables_ok_encode:
  assumes ok: "tables_ok D psi clmo enc" and d: "d \<le> D"
  shows "encode_multiindex k d enc = int i \<longleftrightarrow> i < length (clmo ! d) \<and> clmo ! d ! i = k"
proof -
  from ok d have enc: "enc ! d = map_of (zip (clmo ! d) [0..<length (clmo ! d)])"
    and len: "d < length enc" and dist: "distinct (clmo ! d)"
    by (simp_all add: tables_ok_def create_encode_dict_from_clmo_def)
  show ?thesis
  proof (cases "sum_list k = d")
    case True
    with len have "encode_multiindex k d enc = int i \<longleftrightarrow> (enc ! d) k = Some i"
      by (simp add: encode_multiindex_def split: option.splits)
    also have "\<dots> \<longleftrightarrow> i < length (clmo ! d) \<and> clmo ! d ! i = k"
      unfolding enc by (rule dict_of_distinct [OF dist])
    finally show ?thesis .
  next
    case False
    with tables_ok_tuple(2) [OF ok d] show ?thesis
      by (auto simp: encode_multiindex_def)
  qed
qed

lemma tables_ok_find:
  assumes ok: "tables_ok D psi clmo enc" and d: "d \<le> D"
    and k: "length k = N_VARS" "sum_list k = d"
  shows "\<exists>i<length (clmo ! d). clmo ! d ! i = k"
proof -
  from ok d k have "k \<in> set (clmo ! d)"
    by (simp add: tables_ok_def)
  then show ?thesis by (simp add: in_set_conv_nth)
qed

lemma tables_ok_unique:
  assumes ok: "tables_ok D psi clmo enc" and d: "d \<le> D"
    and "i < length (clmo ! d)" "j < length (clmo ! d)"
  shows "clmo ! d ! i = clmo ! d ! j \<longleftrightarrow> i = j"
proof -
  from ok d have "distinct (clmo ! d)" by (simp add: tables_ok_def)
  with assms(3,4) show ?thesis by (simp add: nth_eq_iff_index_eq)
qed

lemma tables_ok_decodable:
  assumes ok: "tables_ok D psi clmo enc" and d: "d \<le> D" and "len \<le> length (clmo ! d)"
  shows "decodable clmo d len"
  using assms tables_ok_tuple(1) [OF ok d] by (simp add: decodable_def tables_ok_def)

lemma tables_ok_dict_within:
  assumes ok: "tables_ok D psi clmo enc" and d: "d \<le> D"
  shows "dict_within enc d (length (clmo ! d))"
  unfolding dict_within_def
proof
  fix k
  from encode_range [of k d enc] show "encode_multiindex k d enc < int (length (clmo ! d))"
  proof
    assume "encode_multiindex k d enc = - 1"
    then show ?thesis by simp
  next
    assume "0 \<le> encode_multiindex k d enc"
    then obtain i where i: "encode_multiindex k d enc = int i"
      using nonneg_int_cases by blast
    with tables_ok_encode [OF ok d, of k i] show ?thesis by simp
  qed
qed


lemma decodable_decode:
  assumes "decodable clmo d len" "i < len"
  shows "decode_multiindex i d clmo = Inr (clmo ! d ! i)" "length (clmo ! d ! i) = N_VARS"
  using assms by (simp_all add: decodable_def decode_multiindex_def)

lemma add_at2_ok:
  assumes sh: "shape nT n s" and tid: "tid < nT" and idx: "idx < n"
  shows "\<exists>s'. add_at2 s tid idx v = Inr s' \<and> shape nT n s'
           \<and> (\<forall>j<n. colsum s' j = colsum s j + (if j = idx then v else 0))"
proof -
  let ?s' = "s[tid := (s ! tid)[idx := s ! tid ! idx + v]]"
  have eq: "add_at2 s tid idx v = Inr ?s'"
    using assms by (simp add: add_at2_def shape_def)
  have sh': "shape nT n ?s'"
    using assms by (auto simp: shape_def nth_list_update)
  have "colsum ?s' j = colsum s j + (if j = idx then v else 0)" if "j < n" for j
  proof -
    have "colsum ?s' j = (\<Sum>t<nT. s ! t ! j + (if t = tid then (if j = idx then v else 0) else 0))"
      unfolding colsum_def using assms by (auto intro!: sum.cong simp: shape_def nth_list_update)
    also have "\<dots> = colsum s j + (\<Sum>t<nT. if t = tid then (if j = idx then v else 0) else 0)"
      using sh by (simp add: sum.distrib colsum_def shape_def)
    also have "(\<Sum>t<nT. if t = tid then (if j = idx then v else 0) else 0) = (if j = idx then v else 0)"
      using tid by (simp add: sum.delta)
    finally show ?thesis .
  qed
  with eq sh' show ?thesis by blast
qed

lemma reduce_rows_ok:
  assumes sh: "shape nT n s"
  shows "\<exists>r. reduce_rows nT n s = Inr r \<and> length r = n \<and> (\<forall>idx<n. r ! idx = colsum s idx)"
proof -
  let ?I = "\<lambda>m r. length r = n \<and> (\<forall>idx<n. r ! idx = (\<Sum>t<m. s ! t ! idx))"
  let ?body = "\<lambda>tid r. bind_err (rd s tid) (\<lambda>row. Inr (map2 (+) r row))"
  have "\<exists>r. for_range nT ?body (replicate n 0) = Inr r \<and> ?I nT r"
  proof (rule for_range_rule [where I = ?I and body = ?body])
    show "?I 0 (replicate n 0)" by simp
  next
    fix m r assume m: "m < nT" and I: "?I m r"
    from m sh have "rd s m = Inr (s ! m)" "length (s ! m) = n"
      by (simp_all add: shape_def)
    with I show "\<exists>r'. ?body m r = Inr r' \<and> ?I (Suc m) r'"
      by simp
  qed
  with sh show ?thesis
    by (simp add: reduce_rows_def colsum_def shape_def)
qed

lemma add_exponents_loop:
  "m \<le> length ki \<Longrightarrow> m \<le> length kj \<Longrightarrow> m \<le> length ks \<Longrightarrow>
   for_range m (\<lambda>m ks. bind_err (rd ki m) (\<lambda>a. bind_err (rd kj m) (\<lambda>b. wr ks m (a + b)))) ks
     = Inr (map (\<lambda>i. ki ! i + kj ! i) [0..<m] @ drop m ks)"
proof (induction m)
  case 0
  then show ?case by simp
next
  case (Suc m)
  then show ?case
    by (simp add: list_update_append Cons_nth_drop_Suc [symmetric] upd_conv_take_nth_drop)
qed

lemma add_exponents_ok:
  assumes "length ki = N_VARS" "length kj = N_VARS"
  shows "add_exponents ki kj = Inr (map2 (+) ki kj)"
proof -
  have "add_exponents ki kj = Inr (map (\<lambda>i. ki ! i + kj ! i) [0..<N_VARS])"
    unfolding add_exponents_def using add_exponents_loop [of N_VARS ki kj "replicate N_VARS 0"] assms
    by simp
  also have "map (\<lambda>i. ki ! i + kj ! i) [0..<N_VARS] = map2 (+) ki kj"
    using assms by (intro nth_equalityI) simp_all
  finally show ?thesis .
qed

lemma shape_zeros: "shape nT n (replicate nT (replicate n 0))"
  by (simp add: shape_def)

lemma colsum_zeros: "idx < n \<Longrightarrow> colsum (replicate nT (replicate n 0)) idx = 0"
  by (simp add: colsum_def)

lemma poly_mul_coeff:
  assumes psi: "rd2 psi N_VARS (deg_p + deg_q) = Inr n"
    and tid: "\<forall>i<length p. tid_of i < nT"
    and dp: "decodable clmo deg_p (length p)"
    and dq: "decodable clmo deg_q (length q)"
    and within: "dict_within enc (deg_p + deg_q) n"
  shows "\<exists>r. poly_mul nT tid_of p deg_p q deg_q psi clmo enc = Inr r \<and> length r = n
           \<and> (\<forall>idx<n. r ! idx =
                (\<Sum>i<length p. \<Sum>j<length q.
                   if encode_multiindex (map2 (+) (clmo ! deg_p ! i) (clmo ! deg_q ! j)) (deg_p + deg_q) enc
                        = int idx
                   then p ! i * q ! j else 0))"
proof -
  define c where "c i j idx =
    (if encode_multiindex (map2 (+) (clmo ! deg_p ! i) (clmo ! deg_q ! j)) (deg_p + deg_q) enc = int idx
     then p ! i * q ! j else 0)" for i j idx
  let ?inner = "\<lambda>tid pi ki j scratch.
     bind_err (rd q j) (\<lambda>qj.
       if qj = 0 then Inr scratch
       else
         bind_err (decode_multiindex j deg_q clmo) (\<lambda>kj.
         bind_err (add_exponents ki kj) (\<lambda>ks.
         let idx = encode_multiindex ks (deg_p + deg_q) enc in
         if idx \<noteq> - 1 then add_at2 scratch tid (nat idx) (pi * qj)
         else Inr scratch)))"
  let ?outer = "\<lambda>i scratch.
     let tid = tid_of i in
     bind_err (rd p i) (\<lambda>pi.
       if pi = 0 then Inr scratch
       else
         bind_err (decode_multiindex i deg_p clmo) (\<lambda>ki.
         for_range (length q) (?inner tid pi ki) scratch))"
  have inner: "\<exists>s'. for_range (length q) (?inner (tid_of i) (p ! i) (clmo ! deg_p ! i)) s = Inr s'
                 \<and> shape nT n s'
                 \<and> (\<forall>idx<n. colsum s' idx = colsum s idx + (\<Sum>j<length q. c i j idx))"
    if i: "i < length p" and sh: "shape nT n s" for i s
  proof -
    let ?I = "\<lambda>j s'. shape nT n s' \<and> (\<forall>idx<n. colsum s' idx = colsum s idx + (\<Sum>j'<j. c i j' idx))"
    show ?thesis
    proof (rule for_range_rule [where I = ?I and body = "?inner (tid_of i) (p ! i) (clmo ! deg_p ! i)"])
      show "?I 0 s" using sh by simp
    next
      fix j t assume j: "j < length q" and I: "?I j t"
      show "\<exists>t'. ?inner (tid_of i) (p ! i) (clmo ! deg_p ! i) j t = Inr t' \<and> ?I (Suc j) t'"
      proof (cases "q ! j = 0")
        case True
        then have "c i j idx = 0" for idx by (simp add: c_def)
        with True j I show ?thesis by simp
      next
        case False
        let ?ks = "map2 (+) (clmo ! deg_p ! i) (clmo ! deg_q ! j)"
        let ?idx = "encode_multiindex ?ks (deg_p + deg_q) enc"
        have dec: "decode_multiindex j deg_q clmo = Inr (clmo ! deg_q ! j)"
          and ks: "add_exponents (clmo ! deg_p ! i) (clmo ! deg_q ! j) = Inr ?ks"
          using decodable_decode [OF dq j] decodable_decode(2) [OF dp i]
          by (simp_all add: add_exponents_ok)
        show ?thesis
        proof (cases "?idx = - 1")
          case True
          then have "c i j idx = 0" for idx by (simp add: c_def)
          with True False j I dec ks show ?thesis by simp
        next
          case neq: False
          with encode_range [of ?ks "deg_p + deg_q" enc] within
          have rng: "0 \<le> ?idx" "nat ?idx < n"
            by (simp_all add: dict_within_def nat_less_iff)
          from I have "shape nT n t" by simp
          from add_at2_ok [OF this _ rng(2), of "tid_of i" "p ! i * q ! j"] tid i
          obtain t' where t': "add_at2 t (tid_of i) (nat ?idx) (p ! i * q ! j) = Inr t'"
            "shape nT n t'"
            "\<forall>idx<n. colsum t' idx = colsum t idx + (if idx = nat ?idx then p ! i * q ! j else 0)"
            by auto
          have "c i j idx = (if idx = nat ?idx then p ! i * q ! j else 0)" for idx
            using rng(1) by (auto simp: c_def)
          with t' I have "?I (Suc j) t'" by simp
          with t'(1) neq False j dec ks show ?thesis by simp
        qed
      qed
    qed
  qed
  let ?J = "\<lambda>i s. shape nT n s \<and> (\<forall>idx<n. colsum s idx = (\<Sum>i'<i. \<Sum>j<length q. c i' j idx))"
  have "\<exists>s. for_range (length p) ?outer (replicate nT (replicate n 0)) = Inr s \<and> ?J (length p) s"
  proof (rule for_range_rule [where I = ?J and body = ?outer])
    show "?J 0 (replicate nT (replicate n 0))"
      by (simp add: shape_zeros colsum_zeros)
  next
    fix i s assume i: "i < length p" and J: "?J i s"
    show "\<exists>s'. ?outer i s = Inr s' \<and> ?J (Suc i) s'"
    proof (cases "p ! i = 0")
      case True
      then have "c i j idx = 0" for j idx by (simp add: c_def)
      with True i J show ?thesis by simp
    next
      case False
      from J have "shape nT n s" by simp
      from inner [OF i this] obtain s' where
        s': "for_range (length q) (?inner (tid_of i) (p ! i) (clmo ! deg_p ! i)) s = Inr s'"
          "shape nT n s'" "\<forall>idx<n. colsum s' idx = colsum s idx + (\<Sum>j<length q. c i j idx)"
        by blast
      from s'(2,3) J have "?J (Suc i) s'" by simp
      with s'(1) False i decodable_decode(1) [OF dp i] show ?thesis by simp
    qed
  qed
  then obtain s where s: "for_range (length p) ?outer (replicate nT (replicate n 0)) = Inr s"
    "shape nT n s" "\<forall>idx<n. colsum s idx = (\<Sum>i<length p. \<Sum>j<length q. c i j idx)"
    by blast
  from reduce_rows_ok [OF s(2)] obtain r where
    r: "reduce_rows nT n s = Inr r" "length r = n" "\<forall>idx<n. r ! idx = colsum s idx"
    by blast
  have "poly_mul nT tid_of p deg_p q deg_q psi clmo enc = Inr r"
    unfolding poly_mul_def Let_def using psi s(1) [unfolded Let_def] r(1) by simp
  with r(2,3) s(3) show ?thesis
    by (simp add: c_def)
qed




lemma tables_ok_encode_inj:
  assumes ok: "tables_ok D psi clmo enc" and d: "d \<le> D"
  shows "encode_inj enc d"
  unfolding encode_inj_def
proof (intro allI impI)
  fix k k' assume eq: "encode_multiindex k d enc = encode_multiindex k' d enc"
  from encode_range [of k d enc] show "encode_multiindex k d enc = - 1 \<or> k = k'"
  proof
    assume "0 \<le> encode_multiindex k d enc"
    then obtain i where i: "encode_multiindex k d enc = int i"
      using nonneg_int_cases by blast
    with eq have "encode_multiindex k' d enc = int i" by simp
    with i tables_ok_encode [OF ok d] have "k = k'" by metis
    then show ?thesis ..
  qed simp
qed

text \<open>
  C1. For coefficient arrays \<open>p\<close> and \<open>q\<close> whose positions the tables decode at the degrees
  \<open>deg_p\<close> and \<open>deg_q\<close>, with \<^verbatim>\<open>psi[N_VARS, deg_p + deg_q] = n\<close> and a dictionary of
  degree \<open>deg_p + deg_q\<close> whose positions are distinct and inside an array of length \<open>n\<close>,
  \<^verbatim>\<open>_poly_mul\<close> returns an array of length \<open>n\<close>. Its coefficient at the position of an
  exponent tuple \<open>k\<close> is the convolution sum over the pairs whose tuples add to \<open>k\<close>; a
  position that encodes no tuple holds zero. So a pair whose exponent sum is encoded to
  \<open>-1\<close> contributes to no coefficient, and the call still returns. Tables built up to a
  degree \<open>D \<ge> deg_p + deg_q\<close> meet the hypotheses (\<open>tables_ok_psi\<close>,
  \<open>tables_ok_decodable\<close>, \<open>tables_ok_dict_within\<close>, \<open>tables_ok_encode_inj\<close>).
\<close>

theorem poly_mul_convolution:
  assumes psi: "rd2 psi N_VARS (deg_p + deg_q) = Inr n"
    and tid: "\<forall>i<length p. tid_of i < nT"
    and dp: "decodable clmo deg_p (length p)"
    and dq: "decodable clmo deg_q (length q)"
    and within: "dict_within enc (deg_p + deg_q) n"
    and inj: "encode_inj enc (deg_p + deg_q)"
  shows "\<exists>r. poly_mul nT tid_of p deg_p q deg_q psi clmo enc = Inr r \<and> length r = n
           \<and> (\<forall>k idx. encode_multiindex k (deg_p + deg_q) enc = int idx
                 \<longrightarrow> r ! idx = conv_coeff clmo p deg_p q deg_q k)
           \<and> (\<forall>idx<n. (\<forall>k. encode_multiindex k (deg_p + deg_q) enc \<noteq> int idx) \<longrightarrow> r ! idx = 0)"
proof -
  from poly_mul_coeff [OF psi tid dp dq within] obtain r where
    r: "poly_mul nT tid_of p deg_p q deg_q psi clmo enc = Inr r" "length r = n"
      "\<forall>idx<n. r ! idx =
         (\<Sum>i<length p. \<Sum>j<length q.
            if encode_multiindex (map2 (+) (clmo ! deg_p ! i) (clmo ! deg_q ! j)) (deg_p + deg_q) enc
                 = int idx
            then p ! i * q ! j else 0)"
    by blast
  have "r ! idx = conv_coeff clmo p deg_p q deg_q k"
    if k: "encode_multiindex k (deg_p + deg_q) enc = int idx" for k idx
  proof -
    from within k have idx: "idx < n"
      unfolding dict_within_def by (metis of_nat_less_iff)
    have "encode_multiindex ks (deg_p + deg_q) enc = int idx \<longleftrightarrow> ks = k" for ks
    proof
      assume a: "encode_multiindex ks (deg_p + deg_q) enc = int idx"
      with k have "encode_multiindex ks (deg_p + deg_q) enc = encode_multiindex k (deg_p + deg_q) enc"
        by simp
      with inj have "encode_multiindex ks (deg_p + deg_q) enc = - 1 \<or> ks = k"
        unfolding encode_inj_def by blast
      with a show "ks = k" by auto
    next
      assume "ks = k"
      with k show "encode_multiindex ks (deg_p + deg_q) enc = int idx" by simp
    qed
    with r(3) idx show ?thesis
      by (simp add: conv_coeff_def)
  qed
  moreover have "r ! idx = 0"
    if "idx < n" "\<forall>k. encode_multiindex k (deg_p + deg_q) enc \<noteq> int idx" for idx
    using r(3) that by simp
  ultimately show ?thesis
    using r(1,2) by blast
qed


lemma tables_ok_length:
  assumes "tables_ok D psi clmo enc" "d \<le> D"
  shows "psi ! N_VARS ! d = length (clmo ! d)"
  using assms by (simp add: tables_ok_def)

lemma zero_tuple: "length k = n \<and> sum_list k = 0 \<longleftrightarrow> k = replicate n (0::nat)"
  by (auto simp: replicate_length_same)

lemma tables_ok_degree0:
  assumes ok: "tables_ok D psi clmo enc"
  shows "clmo ! 0 = [replicate N_VARS 0]"
proof -
  have "k \<in> {k. length k = N_VARS \<and> sum_list k = 0} \<longleftrightarrow> k \<in> {replicate N_VARS (0::nat)}" for k
    using zero_tuple [of k N_VARS] by simp
  then have "{k. length k = N_VARS \<and> sum_list k = 0} = {replicate N_VARS (0::nat)}"
    by (rule set_eqI)
  with ok have dist: "distinct (clmo ! 0)" and set: "set (clmo ! 0) = {replicate N_VARS 0}"
    by (simp_all add: tables_ok_def)
  from distinct_card [OF dist] set have "length (clmo ! 0) = 1" by simp
  then obtain x where "clmo ! 0 = [x]"
    by (cases "clmo ! 0") auto
  with set show ?thesis by simp
qed

lemma map2_add_zeros: "length k = n \<Longrightarrow> map2 (+) k (replicate n (0::nat)) = k"
  by (intro nth_equalityI) simp_all

lemma sum_single: "(\<Sum>j<length [x]. F j) = F 0"
  by simp

text \<open>
  C6. Multiplying a polynomial of degree \<open>d\<close> (inside the tables, of the length
  \<^verbatim>\<open>psi[N_VARS, d]\<close>) by the unit polynomial \<^verbatim>\<open>[1]\<close> of degree 0 returns an array
  equal to \<open>p\<close>.
\<close>

theorem poly_mul_unit:
  assumes ok: "tables_ok D psi clmo enc" and d: "d \<le> D"
    and len: "length p = psi ! N_VARS ! d"
    and tid: "\<forall>i<length p. tid_of i < nT"
  shows "poly_mul nT tid_of p d [1] 0 psi clmo enc = Inr p"
proof -
  have lenp: "length p = length (clmo ! d)"
    using len tables_ok_length [OF ok d] by simp
  have c0: "clmo ! 0 = [replicate N_VARS 0]"
    by (rule tables_ok_degree0 [OF ok])
  have "\<exists>r. poly_mul nT tid_of p d [1] 0 psi clmo enc = Inr r \<and> length r = length (clmo ! d)
          \<and> (\<forall>idx<length (clmo ! d). r ! idx =
               (\<Sum>i<length p. \<Sum>j<length [1::complex].
                  if encode_multiindex (map2 (+) (clmo ! d ! i) (clmo ! 0 ! j)) (d + 0) enc = int idx
                  then p ! i * [1] ! j else 0))"
  proof (rule poly_mul_coeff)
    show "rd2 psi N_VARS (d + 0) = Inr (length (clmo ! d))"
      using tables_ok_psi [OF ok d] by simp
    show "\<forall>i<length p. tid_of i < nT" by (rule tid)
    show "decodable clmo d (length p)"
      using tables_ok_decodable [OF ok d] lenp by simp
    show "decodable clmo 0 (length [1::complex])"
      using tables_ok_decodable [OF ok, of 0 1] c0 by simp
    show "dict_within enc (d + 0) (length (clmo ! d))"
      using tables_ok_dict_within [OF ok d] by simp
  qed
  then obtain r where r: "poly_mul nT tid_of p d [1] 0 psi clmo enc = Inr r"
    "length r = length (clmo ! d)"
    "\<forall>idx<length (clmo ! d). r ! idx =
       (\<Sum>i<length p. \<Sum>j<length [1::complex].
          if encode_multiindex (map2 (+) (clmo ! d ! i) (clmo ! 0 ! j)) (d + 0) enc = int idx
          then p ! i * [1] ! j else 0)"
    by blast
  have "r ! idx = p ! idx" if idx: "idx < length (clmo ! d)" for idx
  proof -
    have "(\<Sum>j<length [1::complex].
             if encode_multiindex (map2 (+) (clmo ! d ! i) (clmo ! 0 ! j)) (d + 0) enc = int idx
             then p ! i * [1] ! j else 0) = (if i = idx then p ! i else 0)" if "i < length p" for i
    proof -
      from that lenp have i: "i < length (clmo ! d)" by simp
      have "map2 (+) (clmo ! d ! i) (clmo ! 0 ! 0) = clmo ! d ! i"
        using tables_ok_tuple(1) [OF ok d i] by (simp add: c0 map2_add_zeros)
      moreover have "encode_multiindex (clmo ! d ! i) d enc = int idx \<longleftrightarrow> i = idx"
        using tables_ok_encode [OF ok d, of "clmo ! d ! i" idx] tables_ok_unique [OF ok d idx i] idx
        by auto
      ultimately show ?thesis
        by (subst sum_single) simp
    qed
    then have "(\<Sum>i<length p. \<Sum>j<length [1::complex].
                  if encode_multiindex (map2 (+) (clmo ! d ! i) (clmo ! 0 ! j)) (d + 0) enc = int idx
                  then p ! i * [1] ! j else 0)
                = (\<Sum>i<length p. if i = idx then p ! i else 0)"
      by (intro sum.cong) simp_all
    also have "\<dots> = p ! idx"
      using idx lenp by (simp add: sum.delta)
    finally show ?thesis using r(3) idx by simp
  qed
  with r(2) lenp have "r = p"
    by (intro nth_equalityI) simp_all
  with r(1) show ?thesis by simp
qed




lemma init_tables_1:
  "fst (init_index_tables (Suc 0)) ! N_VARS ! Suc 0 = 6"
  by (simp add: init_index_tables_def N_VARS_def eval_nat_numeral nth_append)

theorem poly_mul_unit_witness:
  "poly_mul 2 (\<lambda>i. if i < 3 then 0 else 1) [1, 2, 3, 4, 5, 6] 1 [1] 0
     (fst (init_index_tables 1)) (snd (init_index_tables 1))
     (create_encode_dict_from_clmo (snd (init_index_tables 1))) = Inr [1, 2, 3, 4, 5, 6]"
  by (rule poly_mul_unit [OF tables_ok_init, of 1]) (simp_all add: init_tables_1)

lemma psi_val_6:
  "psi_val N_VARS 0 = 1" "psi_val N_VARS (Suc 0) = 6" "psi_val N_VARS (Suc (Suc 0)) = 21"
  by (simp_all add: N_VARS_def eval_nat_numeral)

lemma init_tables_2:
  "rd2 (fst (init_index_tables 2)) N_VARS 2 = Inr 21"
  "length (snd (init_index_tables 2) ! 0) = 1"
  "length (snd (init_index_tables 2) ! Suc 0) = 6"
  "length (snd (init_index_tables 2) ! 2) = 21"
  using tables_ok_psi [OF tables_ok_init, of 2 2] 
  by (simp_all add: init_index_tables_def length_monomials psi_val_6 nth_append del: monomials.simps upt_Suc)

theorem poly_mul_convolution_witness:
  "poly_mul 2 (\<lambda>i. if i < 5 then 0 else 1) [0, 0, 0, 0, 1, 1] 1 [0, 0, 0, 0, 1, 1] 1
     (fst (init_index_tables 2)) (snd (init_index_tables 2))
     (create_encode_dict_from_clmo (snd (init_index_tables 1)) @ [[[2, 0, 0, 0, 0, 0] \<mapsto> 20]])
     = Inr (replicate 20 0 @ [1])
   \<and> (\<exists>r. poly_mul 2 (\<lambda>i. if i < 5 then 0 else 1) [0, 0, 0, 0, 1, 1] 1 [0, 0, 0, 0, 1, 1] 1
         (fst (init_index_tables 2)) (snd (init_index_tables 2))
         (create_encode_dict_from_clmo (snd (init_index_tables 1)) @ [[[2, 0, 0, 0, 0, 0] \<mapsto> 20]])
         = Inr r \<and> length r = 21
       \<and> (\<forall>k idx. encode_multiindex k (1 + 1)
             (create_encode_dict_from_clmo (snd (init_index_tables 1)) @ [[[2, 0, 0, 0, 0, 0] \<mapsto> 20]])
             = int idx
           \<longrightarrow> r ! idx = conv_coeff (snd (init_index_tables 2)) [0, 0, 0, 0, 1, 1] 1 [0, 0, 0, 0, 1, 1] 1 k)
       \<and> (\<forall>idx<21. (\<forall>k. encode_multiindex k (1 + 1)
             (create_encode_dict_from_clmo (snd (init_index_tables 1)) @ [[[2, 0, 0, 0, 0, 0] \<mapsto> 20]])
             \<noteq> int idx) \<longrightarrow> r ! idx = 0))"
proof (rule conjI)
  show "poly_mul 2 (\<lambda>i. if i < 5 then 0 else 1) [0, 0, 0, 0, 1, 1] 1 [0, 0, 0, 0, 1, 1] 1
     (fst (init_index_tables 2)) (snd (init_index_tables 2))
     (create_encode_dict_from_clmo (snd (init_index_tables 1)) @ [[[2, 0, 0, 0, 0, 0] \<mapsto> 20]])
     = Inr (replicate 20 0 @ [1])"
    by (simp add: poly_mul_def init_index_tables_def N_VARS_def rd2_def eval_nat_numeral
        create_encode_dict_from_clmo_def decode_multiindex_def add_exponents_def encode_multiindex_def
        add_at2_def reduce_rows_def nth_append)
next
  let ?enc = "create_encode_dict_from_clmo (snd (init_index_tables 1)) @ [[[2, 0, 0, 0, 0, 0] \<mapsto> 20]]"
  have len: "length (create_encode_dict_from_clmo (snd (init_index_tables (Suc 0)))) = Suc (Suc 0)"
    "(create_encode_dict_from_clmo (snd (init_index_tables (Suc 0))) @ [x]) ! Suc (Suc 0) = x" for x
    by (simp_all add: create_encode_dict_from_clmo_def init_index_tables_def nth_append)
  show "\<exists>r. poly_mul 2 (\<lambda>i. if i < 5 then 0 else 1) [0, 0, 0, 0, 1, 1] 1 [0, 0, 0, 0, 1, 1] 1
         (fst (init_index_tables 2)) (snd (init_index_tables 2)) ?enc = Inr r \<and> length r = 21
       \<and> (\<forall>k idx. encode_multiindex k (1 + 1) ?enc = int idx
           \<longrightarrow> r ! idx = conv_coeff (snd (init_index_tables 2)) [0, 0, 0, 0, 1, 1] 1 [0, 0, 0, 0, 1, 1] 1 k)
       \<and> (\<forall>idx<21. (\<forall>k. encode_multiindex k (1 + 1) ?enc \<noteq> int idx) \<longrightarrow> r ! idx = 0)"
  proof (rule poly_mul_convolution)
    show "rd2 (fst (init_index_tables 2)) N_VARS (1 + 1) = Inr 21"
      by (simp only: one_add_one init_tables_2)
    show "\<forall>i<length [0, 0, 0, 0, 1, 1 :: complex]. (if i < 5 then 0 else 1) < (2::nat)"
      by simp
    show "decodable (snd (init_index_tables 2)) 1 (length [0, 0, 0, 0, 1, 1 :: complex])"
      by (rule tables_ok_decodable [OF tables_ok_init, of _ 2]) (simp_all add: init_tables_2)
    then show "decodable (snd (init_index_tables 2)) 1 (length [0, 0, 0, 0, 1, 1 :: complex])" .
    show "dict_within ?enc (1 + 1) 21"
      unfolding dict_within_def encode_multiindex_def by (simp add: len split: option.splits)
    show "encode_inj ?enc (1 + 1)"
      unfolding encode_inj_def encode_multiindex_def
      by (auto simp: len split: if_splits option.splits)
  qed
qed

section \<open>Restriction\<close>

lemma restrict_block_loop:
  assumes dec: "decodable clmo deg (length v)"
  shows "m \<le> length v \<Longrightarrow>
    for_range m (\<lambda>pos coeff_vec.
       bind_err (rd coeff_vec pos) (\<lambda>c.
       if cmod c \<le> tol then wr coeff_vec pos 0
       else
         bind_err (decode_multiindex pos deg clmo) (\<lambda>k.
         bind_err (rd k 0) (\<lambda>k0.
         if k0 \<noteq> 0 then wr coeff_vec pos 0
         else bind_err (rd k 3) (\<lambda>k3.
              if k3 \<noteq> 0 then wr coeff_vec pos 0 else Inr coeff_vec))))) v
     = Inr (map (restricted clmo tol deg v) [0..<m] @ drop m v)"
proof (induction m)
  case 0
  show ?case by simp
next
  case (Suc m)
  then have m: "m < length v" by simp
  from decodable_decode [OF dec m]
  have k: "decode_multiindex m deg clmo = Inr (clmo ! deg ! m)" "length (clmo ! deg ! m) = N_VARS" .
  have upd: "(map f [0..<m] @ drop m v)[m := x] = map f [0..<m] @ x # drop (Suc m) v" for f x
    using m by (simp add: list_update_append Cons_nth_drop_Suc [symmetric])
  have same: "map f [0..<m] @ drop m v = map f [0..<m] @ v ! m # drop (Suc m) v" for f
    using m by (simp add: Cons_nth_drop_Suc)
  from Suc m k show ?case
    by (simp add: nth_append upd N_VARS_def restricted_def) (metis Cons_nth_drop_Suc)
qed

lemma restrict_block_ok:
  assumes "decodable clmo deg (length v)"
  shows "restrict_block clmo tol deg v = Inr (map (restricted clmo tol deg v) [0..<length v])"
  unfolding restrict_block_def using restrict_block_loop [OF assms, of "length v" tol] by simp

lemma restrict_loop:
  assumes dec: "\<forall>deg<length H. decodable clmo deg (length (H ! deg))"
  shows "m \<le> length H \<Longrightarrow>
    for_range m (\<lambda>deg poly_cm.
       bind_err (rd poly_cm deg) (\<lambda>coeff_vec.
       if length coeff_vec = 0 then Inr poly_cm
       else bind_err (restrict_block clmo tol deg coeff_vec) (\<lambda>coeff_vec. wr poly_cm deg coeff_vec))) H
     = Inr (map (\<lambda>deg. map (restricted clmo tol deg (H ! deg)) [0..<length (H ! deg)]) [0..<m] @ drop m H)"
proof (induction m)
  case 0
  show ?case by simp
next
  case (Suc m)
  then have m: "m < length H" by simp
  with dec have "decodable clmo m (length (H ! m))" by simp
  note blk = restrict_block_ok [OF this, of tol]
  have upd: "(map f [0..<m] @ drop m H)[m := x] = map f [0..<m] @ x # drop (Suc m) H" for f x
    using m by (simp add: list_update_append Cons_nth_drop_Suc [symmetric])
  have same: "map f [0..<m] @ drop m H = map f [0..<m] @ H ! m # drop (Suc m) H" for f
    using m by (simp add: Cons_nth_drop_Suc)
  from Suc m blk show ?case
    by (simp add: nth_append upd) (metis Cons_nth_drop_Suc)
qed

lemma restrict_ok:
  assumes "\<forall>deg<length H. decodable clmo deg (length (H ! deg))"
  shows "restrict_to_center_manifold clmo H tol
           = Inr (map (\<lambda>deg. map (restricted clmo tol deg (H ! deg)) [0..<length (H ! deg)]) [0..<length H])"
  unfolding restrict_to_center_manifold_def using restrict_loop [OF assms, of "length H" tol] by simp

lemma init_tables_decodable:
  assumes "d \<le> D" "len \<le> psi_val N_VARS d"
  shows "decodable (snd (init_index_tables D)) d len"
proof (rule tables_ok_decodable [OF tables_ok_init assms(1)])
  from assms(1) have "snd (init_index_tables D) ! d = monomials N_VARS d"
    by (simp add: init_index_tables_def nth_append del: upt_Suc monomials.simps)
  with assms(2) show "len \<le> length (snd (init_index_tables D) ! d)"
    by (simp add: length_monomials)
qed

lemma restricted_idem:
  "restricted clmo tol deg (map (restricted clmo tol deg v) [0..<length v]) pos
     = restricted clmo tol deg v pos" if "pos < length v"
  using that by (simp add: restricted_def)

text \<open>
  C3 (as stated): the restriction zeroes exactly the coefficients whose exponent tuple has
  \<open>k[0] \<noteq> 0\<close> or \<open>k[3] \<noteq> 0\<close> and copies every other one. With the default tolerance
  \<^verbatim>\<open>tol=1e-14\<close> a coefficient \<^verbatim>\<open>1e-15\<close> of the constant monomial, whose exponents
  are all zero, is not copied: it is set to zero.
\<close>

theorem restrict_exactly_counterexample:
  "decode_multiindex 0 0 (snd (init_index_tables 0)) = Inr [0, 0, 0, 0, 0, 0]
   \<and> (1 / 10 ^ 15 :: complex) \<noteq> 0
   \<and> restrict_to_center_manifold (snd (init_index_tables 0)) [[1 / 10 ^ 15]] (1 / 10 ^ 14) = Inr [[0]]"
  by (simp add: restrict_to_center_manifold_def restrict_block_def init_index_tables_def
      N_VARS_def decode_multiindex_def norm_divide norm_power eval_nat_numeral)

text \<open>
  C3 (amended): for a graded polynomial whose blocks the tables decode, the restriction
  returns blocks of the same lengths in which a coefficient is zero exactly when its
  modulus is at most the tolerance \<^verbatim>\<open>tol\<close> (default \<^verbatim>\<open>1e-14\<close>) or its exponent tuple
  has \<open>k[0] \<noteq> 0\<close> or \<open>k[3] \<noteq> 0\<close>, and is the input coefficient otherwise. The result is
  a new value; the argument is not changed.
\<close>

theorem restrict_zeroes:
  assumes "\<forall>deg<length H. decodable clmo deg (length (H ! deg))"
  shows "\<exists>H'. restrict_to_center_manifold clmo H tol = Inr H' \<and> length H' = length H
           \<and> (\<forall>deg<length H. length (H' ! deg) = length (H ! deg)
                \<and> (\<forall>pos<length (H ! deg). \<exists>k. decode_multiindex pos deg clmo = Inr k
                      \<and> H' ! deg ! pos =
                          (if cmod (H ! deg ! pos) \<le> tol \<or> k ! 0 \<noteq> 0 \<or> k ! 3 \<noteq> 0 then 0
                           else H ! deg ! pos)))"
proof -
  have "decode_multiindex pos deg clmo = Inr (clmo ! deg ! pos)"
    if "deg < length H" "pos < length (H ! deg)" for deg pos
    using assms that decodable_decode(1) by blast
  then show ?thesis
    by (simp add: restrict_ok [OF assms] restricted_def)
qed

theorem restrict_zeroes_witness:
  "restrict_to_center_manifold (snd (init_index_tables 1)) [[5], [1, 2, 3, 4, 5, 6]] (1 / 10 ^ 14)
       = Inr [[5], [1, 2, 0, 4, 5, 0]]
   \<and> (\<exists>H'. restrict_to_center_manifold (snd (init_index_tables 1)) [[5], [1, 2, 3, 4, 5, 6]] (1 / 10 ^ 14)
            = Inr H'
        \<and> length H' = length [[5], [1, 2, 3, 4, 5, 6 :: complex]]
        \<and> (\<forall>deg<length [[5], [1, 2, 3, 4, 5, 6 :: complex]].
              length (H' ! deg) = length ([[5], [1, 2, 3, 4, 5, 6 :: complex]] ! deg)
              \<and> (\<forall>pos<length ([[5], [1, 2, 3, 4, 5, 6 :: complex]] ! deg).
                    \<exists>k. decode_multiindex pos deg (snd (init_index_tables 1)) = Inr k
                      \<and> H' ! deg ! pos =
                          (if cmod ([[5], [1, 2, 3, 4, 5, 6]] ! deg ! pos) \<le> 1 / 10 ^ 14
                              \<or> k ! 0 \<noteq> 0 \<or> k ! 3 \<noteq> 0
                           then 0 else [[5], [1, 2, 3, 4, 5, 6]] ! deg ! pos))))"
proof (rule conjI)
  show "restrict_to_center_manifold (snd (init_index_tables 1)) [[5], [1, 2, 3, 4, 5, 6]] (1 / 10 ^ 14)
       = Inr [[5], [1, 2, 0, 4, 5, 0]]"
    by (simp add: restrict_to_center_manifold_def restrict_block_def init_index_tables_def
      N_VARS_def decode_multiindex_def norm_divide norm_power eval_nat_numeral)
next
  let ?H = "[[5], [1, 2, 3, 4, 5, 6 :: complex]]"
  have dec: "\<forall>deg<length ?H. decodable (snd (init_index_tables 1)) deg (length (?H ! deg))"
  proof -
    have "decodable (snd (init_index_tables 1)) 0 (length [5 :: complex])"
      by (rule init_tables_decodable) (simp_all add: psi_val_6)
    moreover have "decodable (snd (init_index_tables 1)) 1 (length [1, 2, 3, 4, 5, 6 :: complex])"
      by (rule init_tables_decodable) (simp_all add: psi_val_6)
    ultimately show ?thesis by (auto simp: less_Suc_eq)
  qed
  show "\<exists>H'. restrict_to_center_manifold (snd (init_index_tables 1)) ?H (1 / 10 ^ 14) = Inr H'
        \<and> length H' = length ?H
        \<and> (\<forall>deg<length ?H.
              length (H' ! deg) = length (?H ! deg)
              \<and> (\<forall>pos<length (?H ! deg).
                    \<exists>k. decode_multiindex pos deg (snd (init_index_tables 1)) = Inr k
                      \<and> H' ! deg ! pos =
                          (if cmod (?H ! deg ! pos) \<le> 1 / 10 ^ 14 \<or> k ! 0 \<noteq> 0 \<or> k ! 3 \<noteq> 0
                           then 0 else ?H ! deg ! pos)))"
    by (rule restrict_zeroes [OF dec])
qed

text \<open>
  C7. The restriction is idempotent: applied to its own result it returns that result
  again, exactly. Every coefficient of the result that is not zero sits at an exponent
  tuple with \<open>k[0] = 0\<close> and \<open>k[3] = 0\<close>. This holds for every tolerance.
\<close>

theorem restrict_idempotent:
  assumes "\<forall>deg<length H. decodable clmo deg (length (H ! deg))"
  shows "\<exists>H'. restrict_to_center_manifold clmo H tol = Inr H'
           \<and> restrict_to_center_manifold clmo H' tol = Inr H'
           \<and> (\<forall>deg<length H'. \<forall>pos<length (H' ! deg). H' ! deg ! pos \<noteq> 0 \<longrightarrow>
                 (\<exists>k. decode_multiindex pos deg clmo = Inr k \<and> k ! 0 = 0 \<and> k ! 3 = 0))"
proof -
  let ?H' = "map (\<lambda>deg. map (restricted clmo tol deg (H ! deg)) [0..<length (H ! deg)]) [0..<length H]"
  have first: "restrict_to_center_manifold clmo H tol = Inr ?H'"
    by (rule restrict_ok [OF assms])
  have dec': "\<forall>deg<length ?H'. decodable clmo deg (length (?H' ! deg))"
    using assms by simp
  have "restrict_to_center_manifold clmo ?H' tol
          = Inr (map (\<lambda>deg. map (restricted clmo tol deg (?H' ! deg)) [0..<length (?H' ! deg)])
                   [0..<length ?H'])"
    by (rule restrict_ok [OF dec'])
  also have "map (\<lambda>deg. map (restricted clmo tol deg (?H' ! deg)) [0..<length (?H' ! deg)])
                   [0..<length ?H'] = ?H'"
    by (auto intro!: nth_equalityI simp: restricted_idem)
  finally have second: "restrict_to_center_manifold clmo ?H' tol = Inr ?H'" .
  have "decode_multiindex pos deg clmo = Inr (clmo ! deg ! pos)"
    if "deg < length H" "pos < length (H ! deg)" for deg pos
    using assms that decodable_decode(1) by blast
  then have "\<forall>deg<length ?H'. \<forall>pos<length (?H' ! deg). ?H' ! deg ! pos \<noteq> 0 \<longrightarrow>
                 (\<exists>k. decode_multiindex pos deg clmo = Inr k \<and> k ! 0 = 0 \<and> k ! 3 = 0)"
    by (simp add: restricted_def)
  with first second show ?thesis by blast
qed

theorem restrict_idempotent_witness:
  "restrict_to_center_manifold (snd (init_index_tables 1)) [[5], [1, 2, 3, 4, 5, 6]] (1 / 10 ^ 14)
     = Inr [[5], [1, 2, 0, 4, 5, 0]]
   \<and> restrict_to_center_manifold (snd (init_index_tables 1)) [[5], [1, 2, 0, 4, 5, 0]] (1 / 10 ^ 14)
     = Inr [[5], [1, 2, 0, 4, 5, 0]]"
proof -
  let ?H = "[[5], [1, 2, 3, 4, 5, 6 :: complex]]"
  have dec: "\<forall>deg<length ?H. decodable (snd (init_index_tables 1)) deg (length (?H ! deg))"
  proof -
    have "decodable (snd (init_index_tables 1)) 0 (length [5 :: complex])"
      by (rule init_tables_decodable) (simp_all add: psi_val_6)
    moreover have "decodable (snd (init_index_tables 1)) 1 (length [1, 2, 3, 4, 5, 6 :: complex])"
      by (rule init_tables_decodable) (simp_all add: psi_val_6)
    ultimately show ?thesis by (auto simp: less_Suc_eq)
  qed
  from restrict_idempotent [OF dec, of "1 / 10 ^ 14"] obtain H' where
    H': "restrict_to_center_manifold (snd (init_index_tables 1)) ?H (1 / 10 ^ 14) = Inr H'"
      "restrict_to_center_manifold (snd (init_index_tables 1)) H' (1 / 10 ^ 14) = Inr H'"
    by blast
  moreover have "restrict_to_center_manifold (snd (init_index_tables 1)) ?H (1 / 10 ^ 14)
       = Inr [[5], [1, 2, 0, 4, 5, 0]]"
    by (simp add: restrict_to_center_manifold_def restrict_block_def init_index_tables_def
      N_VARS_def decode_multiindex_def norm_divide norm_power eval_nat_numeral)
  ultimately show ?thesis by simp
qed

section \<open>Differentiation\<close>

lemma tables_ok_fill:
  assumes "tables_ok D psi clmo enc" "d \<le> D" "i < length (clmo ! d)"
  shows "fill_exponents i d clmo = Inr (clmo ! d ! i)"
  using tables_ok_decode [OF assms] by (simp add: fill_exponents_def)

lemma tables_ok_encode_nat:
  assumes ok: "tables_ok D psi clmo enc" and d: "d \<le> D"
    and ne: "encode_multiindex k d enc \<noteq> - 1"
  shows "nat (encode_multiindex k d enc) < length (clmo ! d)"
    and "clmo ! d ! nat (encode_multiindex k d enc) = k"
    and "encode_multiindex k d enc = int idx \<longleftrightarrow> idx = nat (encode_multiindex k d enc)"
proof -
  from ne encode_range [of k d enc] obtain i where i: "encode_multiindex k d enc = int i"
    using nonneg_int_cases by blast
  with tables_ok_encode [OF ok d, of k i]
  show "nat (encode_multiindex k d enc) < length (clmo ! d)"
    and "clmo ! d ! nat (encode_multiindex k d enc) = k"
    and "encode_multiindex k d enc = int idx \<longleftrightarrow> idx = nat (encode_multiindex k d enc)"
    by auto
qed

lemma tables_ok_encode_neg:
  assumes ok: "tables_ok D psi clmo enc" and d: "d \<le> D"
    and k: "length k = N_VARS" "sum_list k = d"
  shows "encode_multiindex k d enc \<noteq> - 1"
proof -
  from tables_ok_find [OF ok d k] obtain i where "i < length (clmo ! d)" "clmo ! d ! i = k"
    by blast
  with tables_ok_encode [OF ok d, of k i] show ?thesis by simp
qed

lemma poly_diff_sum:
  assumes ok: "tables_ok D psi clmo enc"
    and deg: "0 < degree" "degree \<le> D"
    and len: "length p = length (clmo ! degree)"
    and var: "var < N_VARS"
    and tid: "\<forall>i<length p. tid_of i < nT"
  shows "\<exists>dp. poly_diff nT tid_of p var degree psi clmo enc = Inr dp
           \<and> length dp = length (clmo ! (degree - 1))
           \<and> (\<forall>idx<length (clmo ! (degree - 1)). dp ! idx =
                (\<Sum>i<length p.
                   if clmo ! degree ! i ! var \<noteq> 0
                      \<and> encode_multiindex ((clmo ! degree ! i)[var := clmo ! degree ! i ! var - 1])
                            (degree - 1) enc = int idx
                   then p ! i * of_nat (clmo ! degree ! i ! var) else 0))"
proof -
  define n where "n = length (clmo ! (degree - 1))"
  define c where "c i idx =
    (if clmo ! degree ! i ! var \<noteq> 0
        \<and> encode_multiindex ((clmo ! degree ! i)[var := clmo ! degree ! i ! var - 1]) (degree - 1) enc
            = int idx
     then p ! i * of_nat (clmo ! degree ! i ! var) else 0)" for i idx
  from deg have d1: "degree - 1 \<le> D" by simp
  let ?body = "\<lambda>i scratch.
     let tid = tid_of i in
     bind_err (rd p i) (\<lambda>coeff.
     if coeff = 0 then Inr scratch
     else
       bind_err (fill_exponents i degree clmo) (\<lambda>k_vec.
       bind_err (rd k_vec var) (\<lambda>exp.
       if exp = 0 then Inr scratch
       else
         bind_err (wr k_vec var (exp - 1)) (\<lambda>k_vec.
         let idx = encode_multiindex k_vec (degree - 1) enc in
         if idx \<noteq> - 1 then add_at2 scratch tid (nat idx) (coeff * of_nat exp)
         else Inr scratch))))"
  let ?I = "\<lambda>i s. shape nT n s \<and> (\<forall>idx<n. colsum s idx = (\<Sum>i'<i. c i' idx))"
  have "\<exists>s. for_range (length p) ?body (replicate nT (replicate n 0)) = Inr s \<and> ?I (length p) s"
  proof (rule for_range_rule [where I = ?I and body = ?body])
    show "?I 0 (replicate nT (replicate n 0))"
      by (simp add: shape_zeros colsum_zeros)
  next
    fix i s assume i: "i < length p" and I: "?I i s"
    let ?k = "clmo ! degree ! i"
    let ?k' = "?k[var := ?k ! var - 1]"
    let ?idx = "encode_multiindex ?k' (degree - 1) enc"
    from i len have i': "i < length (clmo ! degree)" by simp
    note fill = tables_ok_fill [OF ok deg(2) i']
    note kl = tables_ok_tuple [OF ok deg(2) i']
    from kl(1) var have rdk: "rd ?k var = Inr (?k ! var)" "wr ?k var x = Inr (?k[var := x])" for x
      by simp_all
    show "\<exists>s'. ?body i s = Inr s' \<and> ?I (Suc i) s'"
    proof (cases "p ! i = 0 \<or> ?k ! var = 0")
      case True
      then have "c i idx = 0" for idx by (auto simp: c_def)
      with True i I fill rdk show ?thesis by auto
    next
      case False
      then have nz: "p ! i \<noteq> 0" "?k ! var \<noteq> 0" by simp_all
      show ?thesis
      proof (cases "?idx = - 1")
        case True
        then have "c i idx = 0" for idx by (simp add: c_def)
        with True nz i I fill rdk show ?thesis by simp
      next
        case neq: False
        from tables_ok_encode_nat [OF ok d1 neq]
        have rng: "nat ?idx < n" and eq: "?idx = int idx \<longleftrightarrow> idx = nat ?idx" for idx
          by (simp_all add: n_def)
        from I have "shape nT n s" by simp
        from add_at2_ok [OF this _ rng, of "tid_of i" "p ! i * of_nat (?k ! var)"] tid i
        obtain s' where s': "add_at2 s (tid_of i) (nat ?idx) (p ! i * of_nat (?k ! var)) = Inr s'"
          "shape nT n s'"
          "\<forall>idx<n. colsum s' idx = colsum s idx + (if idx = nat ?idx then p ! i * of_nat (?k ! var) else 0)"
          by auto
        have "c i idx = (if idx = nat ?idx then p ! i * of_nat (?k ! var) else 0)" for idx
          using nz(2) eq [of idx] by (simp add: c_def)
        with s' I have "?I (Suc i) s'" by simp
        with s'(1) neq nz i fill rdk show ?thesis by simp
      qed
    qed
  qed
  then obtain s where s: "for_range (length p) ?body (replicate nT (replicate n 0)) = Inr s"
    "shape nT n s" "\<forall>idx<n. colsum s idx = (\<Sum>i<length p. c i idx)"
    by blast
  from reduce_rows_ok [OF s(2)] obtain dp where
    dp: "reduce_rows nT n s = Inr dp" "length dp = n" "\<forall>idx<n. dp ! idx = colsum s idx"
    by blast
  have "poly_diff nT tid_of p var degree psi clmo enc = Inr dp"
    unfolding poly_diff_def Let_def
    using deg(1) tables_ok_psi [OF ok d1] s(1) [unfolded Let_def] dp(1) by (simp add: n_def)
  with dp(2,3) s(3) show ?thesis
    by (simp add: c_def n_def)
qed

lemma poly_diff_coeff:
  assumes ok: "tables_ok D psi clmo enc"
    and deg: "0 < degree" "degree \<le> D"
    and len: "length p = length (clmo ! degree)"
    and var: "var < N_VARS"
    and tid: "\<forall>i<length p. tid_of i < nT"
  shows "\<exists>dp. poly_diff nT tid_of p var degree psi clmo enc = Inr dp
           \<and> length dp = length (clmo ! (degree - 1))
           \<and> (\<forall>idx<length (clmo ! (degree - 1)). \<forall>i<length (clmo ! degree).
                 clmo ! degree ! i
                   = (clmo ! (degree - 1) ! idx)[var := clmo ! (degree - 1) ! idx ! var + 1]
                 \<longrightarrow> dp ! idx = p ! i * of_nat (clmo ! (degree - 1) ! idx ! var + 1))"
proof -
  from deg have d1: "degree - 1 \<le> D" by simp
  from poly_diff_sum [OF assms] obtain dp where
    dp: "poly_diff nT tid_of p var degree psi clmo enc = Inr dp"
      "length dp = length (clmo ! (degree - 1))"
      "\<forall>idx<length (clmo ! (degree - 1)). dp ! idx =
         (\<Sum>i<length p.
            if clmo ! degree ! i ! var \<noteq> 0
               \<and> encode_multiindex ((clmo ! degree ! i)[var := clmo ! degree ! i ! var - 1])
                     (degree - 1) enc = int idx
            then p ! i * of_nat (clmo ! degree ! i ! var) else 0)"
    by blast
  have "dp ! idx = p ! i0 * of_nat (clmo ! (degree - 1) ! idx ! var + 1)"
    if idx: "idx < length (clmo ! (degree - 1))" and i0: "i0 < length (clmo ! degree)"
      and K: "clmo ! degree ! i0 = (clmo ! (degree - 1) ! idx)[var := clmo ! (degree - 1) ! idx ! var + 1]"
    for idx i0
  proof -
    let ?k' = "clmo ! (degree - 1) ! idx"
    have lk': "length ?k' = N_VARS" by (rule tables_ok_tuple(1) [OF ok d1 idx])
    have "(if clmo ! degree ! i ! var \<noteq> 0
               \<and> encode_multiindex ((clmo ! degree ! i)[var := clmo ! degree ! i ! var - 1])
                     (degree - 1) enc = int idx
            then p ! i * of_nat (clmo ! degree ! i ! var) else 0)
          = (if i = i0 then p ! i0 * of_nat (?k' ! var + 1) else 0)" if i: "i < length p" for i
    proof (cases "i = i0")
      case True
      have "clmo ! degree ! i0 ! var = ?k' ! var + 1"
        "(clmo ! degree ! i0)[var := clmo ! degree ! i0 ! var - 1] = ?k'"
        using lk' var by (simp_all add: K)
      with True tables_ok_encode [OF ok d1, of ?k' idx] idx show ?thesis by simp
    next
      case False
      let ?k = "clmo ! degree ! i"
      from i len have i': "i < length (clmo ! degree)" by simp
      have lk: "length ?k = N_VARS" by (rule tables_ok_tuple(1) [OF ok deg(2) i'])
      have "\<not> (?k ! var \<noteq> 0 \<and> encode_multiindex (?k[var := ?k ! var - 1]) (degree - 1) enc = int idx)"
      proof
        assume a: "?k ! var \<noteq> 0 \<and> encode_multiindex (?k[var := ?k ! var - 1]) (degree - 1) enc = int idx"
        with tables_ok_encode [OF ok d1, of "?k[var := ?k ! var - 1]" idx]
        have "?k' = ?k[var := ?k ! var - 1]" by simp
        with a lk var have "?k'[var := ?k' ! var + 1] = ?k" by simp
        with K have "clmo ! degree ! i = clmo ! degree ! i0" by simp
        with tables_ok_unique [OF ok deg(2) i' i0] False show False by simp
      qed
      with False show ?thesis by auto
    qed
    then have "(\<Sum>i<length p.
            if clmo ! degree ! i ! var \<noteq> 0
               \<and> encode_multiindex ((clmo ! degree ! i)[var := clmo ! degree ! i ! var - 1])
                     (degree - 1) enc = int idx
            then p ! i * of_nat (clmo ! degree ! i ! var) else 0)
          = (\<Sum>i<length p. if i = i0 then p ! i0 * of_nat (?k' ! var + 1) else 0)"
      by (intro sum.cong) simp_all
    also have "\<dots> = p ! i0 * of_nat (?k' ! var + 1)"
      using i0 len by (simp add: sum.delta)
    finally show ?thesis using dp(3) idx by simp
  qed
  with dp(1,2) show ?thesis by blast
qed

section \<open>Integration\<close>

lemma add_at_ok:
  assumes "idx < length a"
  shows "add_at a idx v = Inr (a[idx := a ! idx + v])"
  using assms by (simp add: add_at_def)

lemma poly_integrate_sum:
  assumes ok: "tables_ok D psi clmo enc"
    and deg: "degree + 1 \<le> D"
    and len: "length p = length (clmo ! degree)"
    and var: "var < N_VARS"
  shows "\<exists>ip. poly_integrate p var degree psi clmo enc = Inr ip
           \<and> length ip = length (clmo ! (degree + 1))
           \<and> (\<forall>idx<length (clmo ! (degree + 1)). ip ! idx =
                (\<Sum>i<length p.
                   if encode_multiindex ((clmo ! degree ! i)[var := clmo ! degree ! i ! var + 1])
                            (degree + 1) enc = int idx
                   then p ! i / of_nat (clmo ! degree ! i ! var + 1) else 0))"
proof -
  define n where "n = length (clmo ! (degree + 1))"
  define c where "c i idx =
    (if encode_multiindex ((clmo ! degree ! i)[var := clmo ! degree ! i ! var + 1]) (degree + 1) enc
            = int idx
     then p ! i / of_nat (clmo ! degree ! i ! var + 1) else 0)" for i idx
  from deg have d0: "degree \<le> D" by simp
  let ?body = "\<lambda>i ip.
        bind_err (rd p i) (\<lambda>coeff.
        if coeff = 0 then Inr ip
        else
          bind_err (fill_exponents i degree clmo) (\<lambda>k_vec.
          bind_err (rd k_vec var) (\<lambda>e.
          bind_err (wr k_vec var (e + 1)) (\<lambda>k_integrated.
          bind_err (rd k_vec var) (\<lambda>e'.
          let new_coeff = coeff / of_nat (e' + 1);
              idx = encode_multiindex k_integrated (degree + 1) enc in
          if idx \<noteq> - 1 then add_at ip (nat idx) new_coeff else Inr ip)))))"
  let ?I = "\<lambda>i ip. length ip = n \<and> (\<forall>idx<n. ip ! idx = (\<Sum>i'<i. c i' idx))"
  have "\<exists>ip. for_range (length p) ?body (replicate n 0) = Inr ip \<and> ?I (length p) ip"
  proof (rule for_range_rule [where I = ?I and body = ?body])
    show "?I 0 (replicate n 0)" by simp
  next
    fix i ip assume i: "i < length p" and I: "?I i ip"
    let ?k = "clmo ! degree ! i"
    let ?k' = "?k[var := ?k ! var + 1]"
    let ?idx = "encode_multiindex ?k' (degree + 1) enc"
    from i len have i': "i < length (clmo ! degree)" by simp
    note fill = tables_ok_fill [OF ok d0 i']
    note kl = tables_ok_tuple [OF ok d0 i']
    from kl(1) var have rdk: "rd ?k var = Inr (?k ! var)" "wr ?k var x = Inr (?k[var := x])" for x
      by simp_all
    show "\<exists>ip'. ?body i ip = Inr ip' \<and> ?I (Suc i) ip'"
    proof (cases "p ! i = 0")
      case True
      then have "c i idx = 0" for idx by (simp add: c_def)
      with True i I show ?thesis by simp
    next
      case nz: False
      show ?thesis
      proof (cases "?idx = - 1")
        case True
        then have "c i idx = 0" for idx by (simp add: c_def)
        with True nz i I fill rdk show ?thesis by (simp add: Let_def)
      next
        case neq: False
        from tables_ok_encode_nat [OF ok deg neq]
        have rng: "nat ?idx < n" and eq: "?idx = int idx \<longleftrightarrow> idx = nat ?idx" for idx
          by (simp_all add: n_def)
        let ?ip' = "ip[nat ?idx := ip ! nat ?idx + p ! i / of_nat (?k ! var + 1)]"
        from I rng have add: "add_at ip (nat ?idx) (p ! i / of_nat (?k ! var + 1)) = Inr ?ip'"
          by (simp add: add_at_ok)
        have "c i idx = (if idx = nat ?idx then p ! i / of_nat (?k ! var + 1) else 0)" for idx
          using eq [of idx] by (simp add: c_def)
        with I rng have "?I (Suc i) ?ip'" by (simp add: nth_list_update)
        with add neq nz i fill rdk show ?thesis by (simp add: Let_def)
      qed
    qed
  qed
  then obtain ip where ip: "for_range (length p) ?body (replicate n 0) = Inr ip"
    "length ip = n" "\<forall>idx<n. ip ! idx = (\<Sum>i<length p. c i idx)"
    by blast
  have "poly_integrate p var degree psi clmo enc = Inr ip"
    unfolding poly_integrate_def Let_def
    using tables_ok_psi [OF ok deg] ip(1) [unfolded Let_def] by (simp add: n_def)
  with ip(2,3) show ?thesis
    by (simp add: c_def n_def)
qed

lemma bump_inj:
  assumes "length k = length k'" "var < length k"
    and "k[var := k ! var + 1] = k'[var := k' ! var + (1::nat)]"
  shows "k = k'"
proof (rule nth_equalityI)
  show "length k = length k'" by (rule assms(1))
next
  fix j assume j: "j < length k"
  from assms(3) have "k[var := k ! var + 1] ! j = k'[var := k' ! var + 1] ! j" by simp
  with j assms(1,2) show "k ! j = k' ! j"
    by (cases "j = var") simp_all
qed

lemma sum_list_bump: "var < length k \<Longrightarrow> sum_list (k[var := Suc (k ! var)]) = Suc (sum_list k)"
proof (induction k arbitrary: var)
  case Nil
  then show ?case by simp
next
  case (Cons a k)
  then show ?case by (cases var) simp_all
qed

lemma sum_collapse:
  assumes "i0 < (n::nat)" and "\<And>i. i < n \<Longrightarrow> P i \<longleftrightarrow> i = i0"
  shows "(\<Sum>i<n. if P i then f i else (0::complex)) = f i0"
proof -
  have "(\<Sum>i<n. if P i then f i else 0) = (\<Sum>i<n. if i = i0 then f i else 0)"
    by (rule sum.cong) (auto simp: assms(2))
  also have "\<dots> = f i0"
    using assms(1) by (simp add: sum.delta)
  finally show ?thesis .
qed

lemma sum_none:
  assumes "\<And>i. i < (n::nat) \<Longrightarrow> \<not> P i"
  shows "(\<Sum>i<n. if P i then f i else (0::complex)) = 0"
  by (rule sum.neutral) (simp add: assms)

lemma bump_tuple:
  assumes "length (k :: nat list) = N_VARS" "sum_list k = d" "var < N_VARS"
  shows "length (k[var := k ! var + 1]) = N_VARS" "sum_list (k[var := k ! var + 1]) = d + 1"
  using assms by (simp_all add: sum_list_bump)

lemma of_nat_succ_nz [simp]: "1 + complex_of_nat n \<noteq> 0"
  using of_nat_eq_0_iff [of "Suc n", where 'a = complex] by (simp del: of_nat_eq_0_iff)

lemma poly_integrate_coeff:
  assumes ok: "tables_ok D psi clmo enc"
    and deg: "degree + 1 \<le> D"
    and len: "length p = length (clmo ! degree)"
    and var: "var < N_VARS"
  shows "\<exists>ip. poly_integrate p var degree psi clmo enc = Inr ip
           \<and> length ip = length (clmo ! (degree + 1))
           \<and> (\<forall>idx<length (clmo ! (degree + 1)).
                 (clmo ! (degree + 1) ! idx ! var = 0 \<longrightarrow> ip ! idx = 0)
                 \<and> (\<forall>i<length (clmo ! degree).
                       clmo ! (degree + 1) ! idx = (clmo ! degree ! i)[var := clmo ! degree ! i ! var + 1]
                       \<longrightarrow> ip ! idx = p ! i / of_nat (clmo ! degree ! i ! var + 1)))"
proof -
  from deg have d0: "degree \<le> D" by simp
  from poly_integrate_sum [OF assms] obtain ip where
    ip: "poly_integrate p var degree psi clmo enc = Inr ip"
      "length ip = length (clmo ! (degree + 1))"
      "\<forall>idx<length (clmo ! (degree + 1)). ip ! idx =
         (\<Sum>i<length p.
            if encode_multiindex ((clmo ! degree ! i)[var := clmo ! degree ! i ! var + 1])
                     (degree + 1) enc = int idx
            then p ! i / of_nat (clmo ! degree ! i ! var + 1) else 0)"
    by blast
  have enc_eq: "encode_multiindex ((clmo ! degree ! i)[var := clmo ! degree ! i ! var + 1])
                     (degree + 1) enc = int idx
        \<longleftrightarrow> clmo ! (degree + 1) ! idx = (clmo ! degree ! i)[var := clmo ! degree ! i ! var + 1]"
    if "idx < length (clmo ! (degree + 1))" for i idx
    using tables_ok_encode [OF ok deg, of "(clmo ! degree ! i)[var := clmo ! degree ! i ! var + 1]" idx]
      that by auto
  have zero: "ip ! idx = 0"
    if idx: "idx < length (clmo ! (degree + 1))" and z: "clmo ! (degree + 1) ! idx ! var = 0" for idx
  proof -
    have "clmo ! (degree + 1) ! idx \<noteq> (clmo ! degree ! i)[var := clmo ! degree ! i ! var + 1]"
      if "i < length p" for i
    proof
      assume e: "clmo ! (degree + 1) ! idx = (clmo ! degree ! i)[var := clmo ! degree ! i ! var + 1]"
      from that len have "length (clmo ! degree ! i) = N_VARS"
        using tables_ok_tuple(1) [OF ok d0] by simp
      with var have "(clmo ! degree ! i)[var := clmo ! degree ! i ! var + 1] ! var
                       = clmo ! degree ! i ! var + 1" by simp
      with e z show False by simp
    qed
    then have "(\<Sum>i<length p.
            if encode_multiindex ((clmo ! degree ! i)[var := clmo ! degree ! i ! var + 1])
                     (degree + 1) enc = int idx
            then p ! i / of_nat (clmo ! degree ! i ! var + 1) else 0) = 0"
      by (intro sum_none) (simp only: enc_eq [OF idx] not_False_eq_True)
    with ip(3) idx show ?thesis by simp
  qed
  have val: "ip ! idx = p ! i0 / of_nat (clmo ! degree ! i0 ! var + 1)"
    if idx: "idx < length (clmo ! (degree + 1))" and i0: "i0 < length (clmo ! degree)"
      and K: "clmo ! (degree + 1) ! idx = (clmo ! degree ! i0)[var := clmo ! degree ! i0 ! var + 1]"
    for idx i0
  proof -
    have "(clmo ! (degree + 1) ! idx = (clmo ! degree ! i)[var := clmo ! degree ! i ! var + 1])
            \<longleftrightarrow> i = i0" if i: "i < length p" for i
    proof
      assume e: "clmo ! (degree + 1) ! idx = (clmo ! degree ! i)[var := clmo ! degree ! i ! var + 1]"
      from i len have i': "i < length (clmo ! degree)" by simp
      have "clmo ! degree ! i = clmo ! degree ! i0"
      proof (rule bump_inj [where var = var])
        show "length (clmo ! degree ! i) = length (clmo ! degree ! i0)"
          using tables_ok_tuple(1) [OF ok d0] i' i0 by simp
        show "var < length (clmo ! degree ! i)"
          using tables_ok_tuple(1) [OF ok d0 i'] var by simp
        show "(clmo ! degree ! i)[var := clmo ! degree ! i ! var + 1]
                = (clmo ! degree ! i0)[var := clmo ! degree ! i0 ! var + 1]"
          using e K by simp
      qed
      with tables_ok_unique [OF ok d0 i' i0] show "i = i0" by simp
    next
      assume "i = i0"
      with K show "clmo ! (degree + 1) ! idx = (clmo ! degree ! i)[var := clmo ! degree ! i ! var + 1]"
        by simp
    qed
    then have "(\<Sum>i<length p.
            if encode_multiindex ((clmo ! degree ! i)[var := clmo ! degree ! i ! var + 1])
                     (degree + 1) enc = int idx
            then p ! i / of_nat (clmo ! degree ! i ! var + 1) else 0)
          = p ! i0 / of_nat (clmo ! degree ! i0 ! var + 1)"
      using i0 len
      by (intro sum_collapse [where f = "\<lambda>i. p ! i / of_nat (clmo ! degree ! i ! var + 1)"])
         (simp_all only: enc_eq [OF idx])
    then show ?thesis using ip(3) idx by simp
  qed
  from ip(1,2) zero val show ?thesis by blast
qed

text \<open>
  C5. For a polynomial \<open>p\<close> of degree \<open>d\<close> with \<open>d + 1\<close> inside the tables and every
  variable \<open>var\<close> in \<open>0..5\<close>: \<^verbatim>\<open>_poly_integrate\<close> returns a polynomial of degree
  \<open>d + 1\<close> whose coefficient at \<open>k + e\<^sub>v\<^sub>a\<^sub>r\<close> is the coefficient of \<open>p\<close> at \<open>k\<close> divided by
  \<open>k[var] + 1\<close> and whose coefficients at tuples without the variable are zero (the
  integration constant); differentiating it with respect to the same variable returns
  \<open>p\<close>. The coefficients are exact, so the round trip is an equality.
\<close>

theorem diff_integrate_roundtrip:
  assumes ok: "tables_ok D psi clmo enc"
    and deg: "d + 1 \<le> D"
    and len: "length p = psi ! N_VARS ! d"
    and var: "var < N_VARS"
    and tid: "\<forall>i. tid_of i < nT"
  shows "\<exists>ip. poly_integrate p var d psi clmo enc = Inr ip
           \<and> length ip = psi ! N_VARS ! (d + 1)
           \<and> (\<forall>i<length p. \<exists>idx<length ip.
                 decode_multiindex idx (d + 1) clmo
                   = Inr ((clmo ! d ! i)[var := clmo ! d ! i ! var + 1])
                 \<and> ip ! idx = p ! i / of_nat (clmo ! d ! i ! var + 1))
           \<and> (\<forall>idx<length ip. clmo ! (d + 1) ! idx ! var = 0 \<longrightarrow> ip ! idx = 0)
           \<and> poly_diff nT tid_of ip var (d + 1) psi clmo enc = Inr p"
proof -
  from deg have d0: "d \<le> D" by simp
  have lenp: "length p = length (clmo ! d)"
    using len tables_ok_length [OF ok d0] by simp
  from poly_integrate_coeff [OF ok deg lenp var] obtain ip where
    ip: "poly_integrate p var d psi clmo enc = Inr ip"
      "length ip = length (clmo ! (d + 1))"
      "\<And>idx. idx < length (clmo ! (d + 1)) \<Longrightarrow> clmo ! (d + 1) ! idx ! var = 0 \<Longrightarrow> ip ! idx = 0"
      "\<And>idx i. idx < length (clmo ! (d + 1)) \<Longrightarrow> i < length (clmo ! d) \<Longrightarrow>
          clmo ! (d + 1) ! idx = (clmo ! d ! i)[var := clmo ! d ! i ! var + 1]
          \<Longrightarrow> ip ! idx = p ! i / of_nat (clmo ! d ! i ! var + 1)"
    by blast
  have find: "\<exists>idx<length (clmo ! (d + 1)).
                 clmo ! (d + 1) ! idx = (clmo ! d ! i)[var := clmo ! d ! i ! var + 1]"
    if "i < length (clmo ! d)" for i
    using tables_ok_find [OF ok deg bump_tuple [OF tables_ok_tuple [OF ok d0 that] var]] .
  have part1: "\<forall>i<length p. \<exists>idx<length ip.
                 decode_multiindex idx (d + 1) clmo
                   = Inr ((clmo ! d ! i)[var := clmo ! d ! i ! var + 1])
                 \<and> ip ! idx = p ! i / of_nat (clmo ! d ! i ! var + 1)"
  proof (intro allI impI)
    fix i assume "i < length p"
    with lenp have i: "i < length (clmo ! d)" by simp
    from find [OF i] obtain idx where idx: "idx < length (clmo ! (d + 1))"
      "clmo ! (d + 1) ! idx = (clmo ! d ! i)[var := clmo ! d ! i ! var + 1]" by blast
    with ip(4) [OF idx(1) i idx(2)] tables_ok_decode [OF ok deg idx(1)] ip(2)
    show "\<exists>idx<length ip.
            decode_multiindex idx (d + 1) clmo = Inr ((clmo ! d ! i)[var := clmo ! d ! i ! var + 1])
            \<and> ip ! idx = p ! i / of_nat (clmo ! d ! i ! var + 1)"
      by auto
  qed
  from poly_diff_coeff [OF ok _ deg ip(2) var, of tid_of nT] tid obtain dp where
    dp: "poly_diff nT tid_of ip var (d + 1) psi clmo enc = Inr dp"
      "length dp = length (clmo ! d)"
      "\<And>idx i. idx < length (clmo ! d) \<Longrightarrow> i < length (clmo ! (d + 1)) \<Longrightarrow>
          clmo ! (d + 1) ! i = (clmo ! d ! idx)[var := clmo ! d ! idx ! var + 1]
          \<Longrightarrow> dp ! idx = ip ! i * of_nat (clmo ! d ! idx ! var + 1)"
    by auto
  have "dp ! i = p ! i" if i: "i < length (clmo ! d)" for i
  proof -
    from find [OF i] obtain idx where idx: "idx < length (clmo ! (d + 1))"
      "clmo ! (d + 1) ! idx = (clmo ! d ! i)[var := clmo ! d ! i ! var + 1]" by blast
    from dp(3) [OF i idx] ip(4) [OF idx(1) i idx(2)] show ?thesis by simp
  qed
  with dp(2) lenp have "dp = p" by (intro nth_equalityI) simp_all
  with dp(1) ip(1,2,3) part1 tables_ok_length [OF ok deg] show ?thesis
    by auto
qed

section \<open>Poisson bracket\<close>

lemma poly_mul_tables:
  assumes ok: "tables_ok D psi clmo enc"
    and deg: "da + db \<le> D"
    and la: "length a = length (clmo ! da)" and lb: "length b = length (clmo ! db)"
    and tid: "\<forall>i. tid_of i < nT"
  shows "\<exists>r. poly_mul nT tid_of a da b db psi clmo enc = Inr r
           \<and> length r = length (clmo ! (da + db))
           \<and> (\<forall>idx<length (clmo ! (da + db)). r ! idx =
                (\<Sum>i<length a. \<Sum>j<length b.
                   if map2 (+) (clmo ! da ! i) (clmo ! db ! j) = clmo ! (da + db) ! idx
                   then a ! i * b ! j else 0))"
proof -
  from deg have da: "da \<le> D" and db: "db \<le> D" by simp_all
  have "\<exists>r. poly_mul nT tid_of a da b db psi clmo enc = Inr r
           \<and> length r = length (clmo ! (da + db))
           \<and> (\<forall>idx<length (clmo ! (da + db)). r ! idx =
                (\<Sum>i<length a. \<Sum>j<length b.
                   if encode_multiindex (map2 (+) (clmo ! da ! i) (clmo ! db ! j)) (da + db) enc = int idx
                   then a ! i * b ! j else 0))"
    using tid
    by (intro poly_mul_coeff tables_ok_psi [OF ok deg] tables_ok_decodable [OF ok da]
        tables_ok_decodable [OF ok db] tables_ok_dict_within [OF ok deg]) (simp_all add: la lb)
  then obtain r where r: "poly_mul nT tid_of a da b db psi clmo enc = Inr r"
    "length r = length (clmo ! (da + db))"
    "\<And>idx. idx < length (clmo ! (da + db)) \<Longrightarrow> r ! idx =
                (\<Sum>i<length a. \<Sum>j<length b.
                   if encode_multiindex (map2 (+) (clmo ! da ! i) (clmo ! db ! j)) (da + db) enc = int idx
                   then a ! i * b ! j else 0)"
    by blast
  have "r ! idx = (\<Sum>i<length a. \<Sum>j<length b.
                   if map2 (+) (clmo ! da ! i) (clmo ! db ! j) = clmo ! (da + db) ! idx
                   then a ! i * b ! j else 0)" if idx: "idx < length (clmo ! (da + db))" for idx
  proof -
    have "encode_multiindex k (da + db) enc = int idx \<longleftrightarrow> k = clmo ! (da + db) ! idx" for k
      using tables_ok_encode [OF ok deg, of k idx] idx by auto
    with r(3) [OF idx] show ?thesis by simp
  qed
  with r(1,2) show ?thesis by blast
qed

lemma map2_add_commute: "map2 (+) (k :: nat list) k' = map2 (+) k' k"
proof (induction k arbitrary: k')
  case Nil
  show ?case by simp
next
  case (Cons a k)
  show ?case by (cases k') (simp_all add: Cons)
qed

lemma poly_mul_commute:
  assumes ok: "tables_ok D psi clmo enc"
    and deg: "da + db \<le> D"
    and la: "length a = length (clmo ! da)" and lb: "length b = length (clmo ! db)"
    and tid: "\<forall>i. tid_of i < nT"
  shows "poly_mul nT tid_of a da b db psi clmo enc = poly_mul nT tid_of b db a da psi clmo enc"
proof -
  from deg have deg': "db + da \<le> D" by simp
  from poly_mul_tables [OF ok deg la lb tid] obtain r where
    r: "poly_mul nT tid_of a da b db psi clmo enc = Inr r"
    "length r = length (clmo ! (da + db))"
    "\<And>idx. idx < length (clmo ! (da + db)) \<Longrightarrow> r ! idx =
                (\<Sum>i<length a. \<Sum>j<length b.
                   if map2 (+) (clmo ! da ! i) (clmo ! db ! j) = clmo ! (da + db) ! idx
                   then a ! i * b ! j else 0)"
    by blast
  from poly_mul_tables [OF ok deg' lb la tid] obtain r' where
    r': "poly_mul nT tid_of b db a da psi clmo enc = Inr r'"
    "length r' = length (clmo ! (db + da))"
    "\<And>idx. idx < length (clmo ! (db + da)) \<Longrightarrow> r' ! idx =
                (\<Sum>j<length b. \<Sum>i<length a.
                   if map2 (+) (clmo ! db ! j) (clmo ! da ! i) = clmo ! (db + da) ! idx
                   then b ! j * a ! i else 0)"
    by blast
  have "r = r'"
  proof (rule nth_equalityI)
    show "length r = length r'" using r(2) r'(2) by (simp add: add.commute)
  next
    fix idx assume "idx < length r"
    with r(2) have idx: "idx < length (clmo ! (da + db))" by simp
    then have idx': "idx < length (clmo ! (db + da))" by (simp add: add.commute)
    have "r' ! idx = (\<Sum>j<length b. \<Sum>i<length a.
                   if map2 (+) (clmo ! da ! i) (clmo ! db ! j) = clmo ! (da + db) ! idx
                   then a ! i * b ! j else 0)"
      unfolding r'(3) [OF idx']
      by (intro sum.cong refl)
         (simp add: map2_add_commute [of "clmo ! db ! _"] add.commute [of db da] mult.commute)
    also have "\<dots> = r ! idx"
      unfolding r(3) [OF idx] by (rule sum.swap)
    finally show "r ! idx = r' ! idx" by simp
  qed
  with r(1) r'(1) show ?thesis by simp
qed

lemma poly_diff_length:
  assumes ok: "tables_ok D psi clmo enc"
    and deg: "0 < degree" "degree \<le> D"
    and len: "length p = length (clmo ! degree)"
    and var: "var < N_VARS"
    and tid: "\<forall>i. tid_of i < nT"
  shows "\<exists>dp. poly_diff nT tid_of p var degree psi clmo enc = Inr dp
           \<and> length dp = length (clmo ! (degree - 1))"
  using poly_diff_coeff [OF ok deg len var, of tid_of nT] tid by blast

lemma poly_poisson_sum:
  assumes ok: "tables_ok D psi clmo enc"
    and degs: "1 \<le> deg_p" "1 \<le> deg_q" "deg_p \<le> D" "deg_q \<le> D" "deg_p + deg_q - 2 \<le> D"
    and lp: "length p = length (clmo ! deg_p)" and lq: "length q = length (clmo ! deg_q)"
    and tid: "\<forall>i. tid_of i < nT"
  shows "\<exists>r. poly_poisson nT tid_of p deg_p q deg_q psi clmo enc = Inr r
           \<and> length r = length (clmo ! (deg_p + deg_q - 2))
           \<and> (\<forall>m<3. length (poisson_term1 nT tid_of p deg_p q deg_q psi clmo enc m) = length r
                    \<and> length (poisson_term2 nT tid_of p deg_p q deg_q psi clmo enc m) = length r)
           \<and> (\<forall>idx<length r. r ! idx =
                 (\<Sum>m<3. poisson_term1 nT tid_of p deg_p q deg_q psi clmo enc m ! idx
                         - poisson_term2 nT tid_of p deg_p q deg_q psi clmo enc m ! idx))"
proof -
  define n where "n = length (clmo ! (deg_p + deg_q - 2))"
  define t1 where "t1 = poisson_term1 nT tid_of p deg_p q deg_q psi clmo enc"
  define t2 where "t2 = poisson_term2 nT tid_of p deg_p q deg_q psi clmo enc"
  from degs have dsum: "(deg_p - 1) + (deg_q - 1) \<le> D" "(deg_p - 1) + (deg_q - 1) = deg_p + deg_q - 2"
    and pos: "0 < deg_p" "0 < deg_q" by simp_all
  have step: "\<exists>dpx dqqp dpq dqx.
      poly_diff nT tid_of p m deg_p psi clmo enc = Inr dpx
      \<and> poly_diff nT tid_of q (m + 3) deg_q psi clmo enc = Inr dqqp
      \<and> poly_mul nT tid_of dpx (deg_p - 1) dqqp (deg_q - 1) psi clmo enc = Inr (t1 m)
      \<and> poly_diff nT tid_of p (m + 3) deg_p psi clmo enc = Inr dpq
      \<and> poly_diff nT tid_of q m deg_q psi clmo enc = Inr dqx
      \<and> poly_mul nT tid_of dpq (deg_p - 1) dqx (deg_q - 1) psi clmo enc = Inr (t2 m)
      \<and> length (t1 m) = n \<and> length (t2 m) = n" if m: "m < 3" for m
  proof -
    from m have v: "m < N_VARS" "m + 3 < N_VARS" by (simp_all add: N_VARS_def)
    from poly_diff_length [OF ok pos(1) degs(3) lp v(1) tid] obtain dpx where
      dpx: "poly_diff nT tid_of p m deg_p psi clmo enc = Inr dpx"
        "length dpx = length (clmo ! (deg_p - 1))" by blast
    from poly_diff_length [OF ok pos(2) degs(4) lq v(2) tid] obtain dqqp where
      dqqp: "poly_diff nT tid_of q (m + 3) deg_q psi clmo enc = Inr dqqp"
        "length dqqp = length (clmo ! (deg_q - 1))" by blast
    from poly_diff_length [OF ok pos(1) degs(3) lp v(2) tid] obtain dpq where
      dpq: "poly_diff nT tid_of p (m + 3) deg_p psi clmo enc = Inr dpq"
        "length dpq = length (clmo ! (deg_p - 1))" by blast
    from poly_diff_length [OF ok pos(2) degs(4) lq v(1) tid] obtain dqx where
      dqx: "poly_diff nT tid_of q m deg_q psi clmo enc = Inr dqx"
        "length dqx = length (clmo ! (deg_q - 1))" by blast
    from poly_mul_tables [OF ok dsum(1) dpx(2) dqqp(2) tid] obtain term1 where
      term1: "poly_mul nT tid_of dpx (deg_p - 1) dqqp (deg_q - 1) psi clmo enc = Inr term1"
        "length term1 = n" using dsum(2) by (auto simp: n_def)
    from poly_mul_tables [OF ok dsum(1) dpq(2) dqx(2) tid] obtain term2 where
      term2: "poly_mul nT tid_of dpq (deg_p - 1) dqx (deg_q - 1) psi clmo enc = Inr term2"
        "length term2 = n" using dsum(2) by (auto simp: n_def)
    have "t1 m = term1" "t2 m = term2"
      using dpx dqqp dpq dqx term1 term2
      by (simp_all add: t1_def t2_def poisson_term1_def poisson_term2_def)
    with dpx dqqp dpq dqx term1 term2 show ?thesis by simp
  qed
  let ?body = "\<lambda>m r.
          bind_err (if 1 \<le> deg_p then poly_diff nT tid_of p m deg_p psi clmo enc
                    else zeros_psi0 psi) (\<lambda>dpx.
          bind_err (if 1 \<le> deg_q then poly_diff nT tid_of q (m + 3) deg_q psi clmo enc
                    else zeros_psi0 psi) (\<lambda>dqqp.
          let deg_dpx = max 0 (deg_p - 1); deg_dqqp = max 0 (deg_q - 1) in
          bind_err (poly_mul nT tid_of dpx deg_dpx dqqp deg_dqqp psi clmo enc) (\<lambda>term1.
          let r = (if length term1 = length r then map2 (+) r term1 else r) in
          bind_err (if 1 \<le> deg_p then poly_diff nT tid_of p (m + 3) deg_p psi clmo enc
                    else zeros_psi0 psi) (\<lambda>dpq.
          bind_err (if 1 \<le> deg_q then poly_diff nT tid_of q m deg_q psi clmo enc
                    else zeros_psi0 psi) (\<lambda>dqx.
          let deg_dpq = max 0 (deg_p - 1); deg_dqx = max 0 (deg_q - 1) in
          bind_err (poly_mul nT tid_of dpq deg_dpq dqx deg_dqx psi clmo enc) (\<lambda>term2.
          Inr (if length term2 = length r then map2 (-) r term2 else r)))))))"
  let ?I = "\<lambda>m r. length r = n \<and> (\<forall>idx<n. r ! idx = (\<Sum>m'<m. t1 m' ! idx - t2 m' ! idx))"
  have "\<exists>r. for_range 3 ?body (replicate n 0) = Inr r \<and> ?I 3 r"
  proof (rule for_range_rule [where I = ?I and body = ?body])
    show "?I 0 (replicate n 0)" by simp
  next
    fix m r assume m: "m < 3" and I: "?I m r"
    from step [OF m] obtain dpx dqqp dpq dqx where
      s: "poly_diff nT tid_of p m deg_p psi clmo enc = Inr dpx"
      "poly_diff nT tid_of q (m + 3) deg_q psi clmo enc = Inr dqqp"
      "poly_mul nT tid_of dpx (deg_p - 1) dqqp (deg_q - 1) psi clmo enc = Inr (t1 m)"
      "poly_diff nT tid_of p (m + 3) deg_p psi clmo enc = Inr dpq"
      "poly_diff nT tid_of q m deg_q psi clmo enc = Inr dqx"
      "poly_mul nT tid_of dpq (deg_p - 1) dqx (deg_q - 1) psi clmo enc = Inr (t2 m)"
      "length (t1 m) = n" "length (t2 m) = n"
      by blast
    have "?body m r = Inr (map2 (-) (map2 (+) r (t1 m)) (t2 m))"
      using degs(1,2) s I by (simp add: Let_def)
    moreover have "?I (Suc m) (map2 (-) (map2 (+) r (t1 m)) (t2 m))"
      using s(7,8) I by simp
    ultimately show "\<exists>r'. ?body m r = Inr r' \<and> ?I (Suc m) r'" by blast
  qed
  then obtain r where r: "for_range 3 ?body (replicate n 0) = Inr r" "length r = n"
    "\<forall>idx<n. r ! idx = (\<Sum>m<3. t1 m ! idx - t2 m ! idx)"
    by blast
  have "poly_poisson nT tid_of p deg_p q deg_q psi clmo enc = Inr r"
    unfolding poly_poisson_def Let_def
    using degs tables_ok_psi [OF ok degs(5)] r(1) [unfolded Let_def] by (simp add: n_def)
  moreover have "\<forall>m<3. length (t1 m) = n \<and> length (t2 m) = n"
    using step by blast
  ultimately show ?thesis
    using r(2,3) by (simp add: t1_def t2_def n_def)
qed

lemma poisson_term_swap:
  assumes ok: "tables_ok D psi clmo enc"
    and degs: "1 \<le> deg_p" "1 \<le> deg_q" "deg_p \<le> D" "deg_q \<le> D" "deg_p + deg_q - 2 \<le> D"
    and lp: "length p = length (clmo ! deg_p)" and lq: "length q = length (clmo ! deg_q)"
    and tid: "\<forall>i. tid_of i < nT"
    and m: "m < 3"
  shows "poisson_term1 nT tid_of q deg_q p deg_p psi clmo enc m
           = poisson_term2 nT tid_of p deg_p q deg_q psi clmo enc m"
    and "poisson_term2 nT tid_of q deg_q p deg_p psi clmo enc m
           = poisson_term1 nT tid_of p deg_p q deg_q psi clmo enc m"
proof -
  from degs have dsum: "(deg_q - 1) + (deg_p - 1) \<le> D"
    and pos: "0 < deg_p" "0 < deg_q" by simp_all
  from m have v: "m < N_VARS" "m + 3 < N_VARS" by (simp_all add: N_VARS_def)
  from poly_diff_length [OF ok pos(1) degs(3) lp v(1) tid] obtain dpx where
    dpx: "poly_diff nT tid_of p m deg_p psi clmo enc = Inr dpx"
      "length dpx = length (clmo ! (deg_p - 1))" by blast
  from poly_diff_length [OF ok pos(2) degs(4) lq v(2) tid] obtain dqqp where
    dqqp: "poly_diff nT tid_of q (m + 3) deg_q psi clmo enc = Inr dqqp"
      "length dqqp = length (clmo ! (deg_q - 1))" by blast
  from poly_diff_length [OF ok pos(1) degs(3) lp v(2) tid] obtain dpq where
    dpq: "poly_diff nT tid_of p (m + 3) deg_p psi clmo enc = Inr dpq"
      "length dpq = length (clmo ! (deg_p - 1))" by blast
  from poly_diff_length [OF ok pos(2) degs(4) lq v(1) tid] obtain dqx where
    dqx: "poly_diff nT tid_of q m deg_q psi clmo enc = Inr dqx"
      "length dqx = length (clmo ! (deg_q - 1))" by blast
  have c1: "poly_mul nT tid_of dqx (deg_q - 1) dpq (deg_p - 1) psi clmo enc
              = poly_mul nT tid_of dpq (deg_p - 1) dqx (deg_q - 1) psi clmo enc"
    by (rule poly_mul_commute [OF ok dsum dqx(2) dpq(2) tid])
  have c2: "poly_mul nT tid_of dqqp (deg_q - 1) dpx (deg_p - 1) psi clmo enc
              = poly_mul nT tid_of dpx (deg_p - 1) dqqp (deg_q - 1) psi clmo enc"
    by (rule poly_mul_commute [OF ok dsum dqqp(2) dpx(2) tid])
  show "poisson_term1 nT tid_of q deg_q p deg_p psi clmo enc m
           = poisson_term2 nT tid_of p deg_p q deg_q psi clmo enc m"
    using dqx(1) dpq(1) c1 by (simp add: poisson_term1_def poisson_term2_def)
  show "poisson_term2 nT tid_of q deg_q p deg_p psi clmo enc m
           = poisson_term1 nT tid_of p deg_p q deg_q psi clmo enc m"
    using dqqp(1) dpx(1) c2 by (simp add: poisson_term1_def poisson_term2_def)
qed

text \<open>
  C4. For tables built up to degree \<open>D\<close> and polynomials \<open>p\<close>, \<open>q\<close> of degrees
  \<open>deg_p, deg_q \<le> D\<close> (arrays of the lengths \<^verbatim>\<open>psi[N_VARS, deg]\<close>): if both degrees
  are at least one and \<open>deg_p + deg_q - 2 \<le> D\<close>, \<^verbatim>\<open>_poly_poisson\<close> returns an array for
  the degree \<open>deg_p + deg_q - 2\<close> for both orders of the arguments, and the two results
  are opposite in every entry; if a degree is zero it returns the zero constant
  polynomial \<^verbatim>\<open>[0]\<close>. The coefficients are exact, so antisymmetry is an equality.
\<close>

theorem poly_poisson_antisymmetric:
  assumes ok: "tables_ok D psi clmo enc"
    and lp: "length p = psi ! N_VARS ! deg_p" and lq: "length q = psi ! N_VARS ! deg_q"
    and degs: "deg_p \<le> D" "deg_q \<le> D"
    and tid: "\<forall>i. tid_of i < nT"
  shows "(1 \<le> deg_p \<and> 1 \<le> deg_q \<and> deg_p + deg_q - 2 \<le> D \<longrightarrow>
           (\<exists>r r'. poly_poisson nT tid_of p deg_p q deg_q psi clmo enc = Inr r
               \<and> poly_poisson nT tid_of q deg_q p deg_p psi clmo enc = Inr r'
               \<and> length r = psi ! N_VARS ! (deg_p + deg_q - 2) \<and> length r' = length r
               \<and> (\<forall>idx<length r. r ! idx = - (r' ! idx))))
         \<and> (deg_p = 0 \<or> deg_q = 0 \<longrightarrow>
               poly_poisson nT tid_of p deg_p q deg_q psi clmo enc = Inr [0])"
proof (intro conjI impI)
  assume "deg_p = 0 \<or> deg_q = 0"
  then show "poly_poisson nT tid_of p deg_p q deg_q psi clmo enc = Inr [0]"
    using tables_ok_psi [OF ok, of 0] tables_ok_degree0 [OF ok]
    by (simp add: poly_poisson_def zeros_psi0_def)
next
  assume a: "1 \<le> deg_p \<and> 1 \<le> deg_q \<and> deg_p + deg_q - 2 \<le> D"
  then have a': "deg_q + deg_p - 2 \<le> D" by (simp add: add.commute)
  have lp': "length p = length (clmo ! deg_p)" and lq': "length q = length (clmo ! deg_q)"
    using lp lq tables_ok_length [OF ok] degs by simp_all
  let ?t1 = "poisson_term1 nT tid_of p deg_p q deg_q psi clmo enc"
  let ?t2 = "poisson_term2 nT tid_of p deg_p q deg_q psi clmo enc"
  from a poly_poisson_sum [OF ok _ _ degs _ lp' lq' tid] obtain r where
    r: "poly_poisson nT tid_of p deg_p q deg_q psi clmo enc = Inr r"
      "length r = length (clmo ! (deg_p + deg_q - 2))"
      "\<forall>idx<length r. r ! idx = (\<Sum>m<3. ?t1 m ! idx - ?t2 m ! idx)"
    by blast
  from a a' poly_poisson_sum [OF ok _ _ degs(2,1) _ lq' lp' tid] obtain r' where
    r': "poly_poisson nT tid_of q deg_q p deg_p psi clmo enc = Inr r'"
      "length r' = length (clmo ! (deg_q + deg_p - 2))"
      "\<forall>idx<length r'. r' ! idx =
          (\<Sum>m<3. poisson_term1 nT tid_of q deg_q p deg_p psi clmo enc m ! idx
                  - poisson_term2 nT tid_of q deg_q p deg_p psi clmo enc m ! idx)"
    by blast
  have len: "length r' = length r"
    using r(2) r'(2) by (simp add: add.commute)
  have "r ! idx = - (r' ! idx)" if idx: "idx < length r" for idx
  proof -
    have "r' ! idx = (\<Sum>m<3. ?t2 m ! idx - ?t1 m ! idx)"
    proof -
      have "(\<Sum>m<3. poisson_term1 nT tid_of q deg_q p deg_p psi clmo enc m ! idx
                  - poisson_term2 nT tid_of q deg_q p deg_p psi clmo enc m ! idx)
            = (\<Sum>m<3. ?t2 m ! idx - ?t1 m ! idx)"
      proof (rule sum.cong [OF refl])
        fix m :: nat assume "m \<in> {..<3}"
        then have m: "m < 3" by simp
        from a have b: "1 \<le> deg_p" "1 \<le> deg_q" "deg_p + deg_q - 2 \<le> D" by simp_all
        show "poisson_term1 nT tid_of q deg_q p deg_p psi clmo enc m ! idx
                  - poisson_term2 nT tid_of q deg_q p deg_p psi clmo enc m ! idx
              = ?t2 m ! idx - ?t1 m ! idx"
          by (simp only: poisson_term_swap [OF ok b(1,2) degs b(3) lp' lq' tid m])
      qed
      with r'(3) idx len show ?thesis by simp
    qed
    also have "\<dots> = - (\<Sum>m<3. ?t1 m ! idx - ?t2 m ! idx)"
      by (simp add: sum_negf [symmetric])
    finally show ?thesis using r(3) idx by simp
  qed
  with r(1,2) r'(1) len tables_ok_length [OF ok, of "deg_p + deg_q - 2"] a
  show "\<exists>r r'. poly_poisson nT tid_of p deg_p q deg_q psi clmo enc = Inr r
               \<and> poly_poisson nT tid_of q deg_q p deg_p psi clmo enc = Inr r'
               \<and> length r = psi ! N_VARS ! (deg_p + deg_q - 2) \<and> length r' = length r
               \<and> (\<forall>idx<length r. r ! idx = - (r' ! idx))"
    by auto
qed

lemma init_tables_psi:
  "fst (init_index_tables D) ! N_VARS ! d = psi_val N_VARS d" if "d \<le> D"
  using that by (simp add: init_index_tables_def nth_append del: upt_Suc)

theorem diff_integrate_roundtrip_witness:
  "poly_integrate [1, 2, 3, 4, 5, 6] 0 1 (fst (init_index_tables 2)) (snd (init_index_tables 2))
      (create_encode_dict_from_clmo (snd (init_index_tables 2)))
     = Inr [0, 0, 0, 0, 0, 0, 0, 0, 0, 0, 0, 0, 0, 0, 0, 1, 2, 3, 4, 5, 3]
   \<and> (\<exists>ip. poly_integrate [1, 2, 3, 4, 5, 6] 0 1 (fst (init_index_tables 2)) (snd (init_index_tables 2))
              (create_encode_dict_from_clmo (snd (init_index_tables 2))) = Inr ip
         \<and> length ip = fst (init_index_tables 2) ! N_VARS ! (1 + 1)
         \<and> (\<forall>i<length [1, 2, 3, 4, 5, 6 :: complex]. \<exists>idx<length ip.
               decode_multiindex idx (1 + 1) (snd (init_index_tables 2))
                 = Inr ((snd (init_index_tables 2) ! 1 ! i)[0 := snd (init_index_tables 2) ! 1 ! i ! 0 + 1])
               \<and> ip ! idx = [1, 2, 3, 4, 5, 6] ! i / of_nat (snd (init_index_tables 2) ! 1 ! i ! 0 + 1))
         \<and> (\<forall>idx<length ip. snd (init_index_tables 2) ! (1 + 1) ! idx ! 0 = 0 \<longrightarrow> ip ! idx = 0)
         \<and> poly_diff 1 (\<lambda>i. 0) ip 0 (1 + 1) (fst (init_index_tables 2)) (snd (init_index_tables 2))
              (create_encode_dict_from_clmo (snd (init_index_tables 2))) = Inr [1, 2, 3, 4, 5, 6])"
proof (rule conjI)
  show "poly_integrate [1, 2, 3, 4, 5, 6] 0 1 (fst (init_index_tables 2)) (snd (init_index_tables 2))
      (create_encode_dict_from_clmo (snd (init_index_tables 2)))
     = Inr [0, 0, 0, 0, 0, 0, 0, 0, 0, 0, 0, 0, 0, 0, 0, 1, 2, 3, 4, 5, 3]"
    by (simp add: poly_integrate_def init_index_tables_def N_VARS_def rd2_def eval_nat_numeral
        create_encode_dict_from_clmo_def decode_multiindex_def fill_exponents_def
        encode_multiindex_def add_at_def nth_append)
next
  show "\<exists>ip. poly_integrate [1, 2, 3, 4, 5, 6] 0 1 (fst (init_index_tables 2)) (snd (init_index_tables 2))
              (create_encode_dict_from_clmo (snd (init_index_tables 2))) = Inr ip
         \<and> length ip = fst (init_index_tables 2) ! N_VARS ! (1 + 1)
         \<and> (\<forall>i<length [1, 2, 3, 4, 5, 6 :: complex]. \<exists>idx<length ip.
               decode_multiindex idx (1 + 1) (snd (init_index_tables 2))
                 = Inr ((snd (init_index_tables 2) ! 1 ! i)[0 := snd (init_index_tables 2) ! 1 ! i ! 0 + 1])
               \<and> ip ! idx = [1, 2, 3, 4, 5, 6] ! i / of_nat (snd (init_index_tables 2) ! 1 ! i ! 0 + 1))
         \<and> (\<forall>idx<length ip. snd (init_index_tables 2) ! (1 + 1) ! idx ! 0 = 0 \<longrightarrow> ip ! idx = 0)
         \<and> poly_diff 1 (\<lambda>i. 0) ip 0 (1 + 1) (fst (init_index_tables 2)) (snd (init_index_tables 2))
              (create_encode_dict_from_clmo (snd (init_index_tables 2))) = Inr [1, 2, 3, 4, 5, 6]"
  proof (rule diff_integrate_roundtrip [OF tables_ok_init])
    show "1 + 1 \<le> (2::nat)" by simp
    show "length [1, 2, 3, 4, 5, 6 :: complex] = fst (init_index_tables 2) ! N_VARS ! 1"
      by (simp add: init_tables_psi psi_val_6)
    show "0 < N_VARS" by (simp add: N_VARS_def)
    show "\<forall>i::nat. (0::nat) < 1" by simp
  qed
qed

theorem poly_poisson_antisymmetric_witness:
  "poly_poisson 1 (\<lambda>i. 0) [1, 2, 3, 4, 5, 6] 1 [1, 7, 0, 0, 0, 1] 1
      (fst (init_index_tables 1)) (snd (init_index_tables 1))
      (create_encode_dict_from_clmo (snd (init_index_tables 1))) = Inr [36]
   \<and> poly_poisson 1 (\<lambda>i. 0) [1, 7, 0, 0, 0, 1] 1 [1, 2, 3, 4, 5, 6] 1
      (fst (init_index_tables 1)) (snd (init_index_tables 1))
      (create_encode_dict_from_clmo (snd (init_index_tables 1))) = Inr [- 36]
   \<and> (\<exists>r r'. poly_poisson 1 (\<lambda>i. 0) [1, 2, 3, 4, 5, 6] 1 [1, 7, 0, 0, 0, 1] 1
          (fst (init_index_tables 1)) (snd (init_index_tables 1))
          (create_encode_dict_from_clmo (snd (init_index_tables 1))) = Inr r
        \<and> poly_poisson 1 (\<lambda>i. 0) [1, 7, 0, 0, 0, 1] 1 [1, 2, 3, 4, 5, 6] 1
          (fst (init_index_tables 1)) (snd (init_index_tables 1))
          (create_encode_dict_from_clmo (snd (init_index_tables 1))) = Inr r'
        \<and> length r = fst (init_index_tables 1) ! N_VARS ! (1 + 1 - 2) \<and> length r' = length r
        \<and> (\<forall>idx<length r. r ! idx = - (r' ! idx)))
   \<and> poly_poisson 1 (\<lambda>i. 0) [5] 0 [1, 7, 0, 0, 0, 1] 1
      (fst (init_index_tables 1)) (snd (init_index_tables 1))
      (create_encode_dict_from_clmo (snd (init_index_tables 1))) = Inr [0]"
proof -
  note ev = poly_poisson_def poly_diff_def poly_mul_def zeros_psi0_def init_index_tables_def
    N_VARS_def rd2_def eval_nat_numeral create_encode_dict_from_clmo_def decode_multiindex_def
    fill_exponents_def add_exponents_def encode_multiindex_def add_at2_def reduce_rows_def nth_append
  have e1: "poly_poisson 1 (\<lambda>i. 0) [1, 2, 3, 4, 5, 6] 1 [1, 7, 0, 0, 0, 1] 1
      (fst (init_index_tables 1)) (snd (init_index_tables 1))
      (create_encode_dict_from_clmo (snd (init_index_tables 1))) = Inr [36]"
    by (simp add: ev)
  have e2: "poly_poisson 1 (\<lambda>i. 0) [1, 7, 0, 0, 0, 1] 1 [1, 2, 3, 4, 5, 6] 1
      (fst (init_index_tables 1)) (snd (init_index_tables 1))
      (create_encode_dict_from_clmo (snd (init_index_tables 1))) = Inr [- 36]"
    by (simp add: ev)
  have h: "length [1, 2, 3, 4, 5, 6 :: complex] = fst (init_index_tables 1) ! N_VARS ! 1"
    "length [1, 7, 0, 0, 0, 1 :: complex] = fst (init_index_tables 1) ! N_VARS ! 1"
    "length [5 :: complex] = fst (init_index_tables 1) ! N_VARS ! 0"
    "(1::nat) \<le> 1" "(0::nat) \<le> 1" "\<forall>i::nat. (0::nat) < 1"
    by (simp_all add: init_tables_psi psi_val_6)
  from poly_poisson_antisymmetric [OF tables_ok_init h(1,2,4,4,6)]
  have t1: "\<exists>r r'. poly_poisson 1 (\<lambda>i. 0) [1, 2, 3, 4, 5, 6] 1 [1, 7, 0, 0, 0, 1] 1
          (fst (init_index_tables 1)) (snd (init_index_tables 1))
          (create_encode_dict_from_clmo (snd (init_index_tables 1))) = Inr r
        \<and> poly_poisson 1 (\<lambda>i. 0) [1, 7, 0, 0, 0, 1] 1 [1, 2, 3, 4, 5, 6] 1
          (fst (init_index_tables 1)) (snd (init_index_tables 1))
          (create_encode_dict_from_clmo (snd (init_index_tables 1))) = Inr r'
        \<and> length r = fst (init_index_tables 1) ! N_VARS ! (1 + 1 - 2) \<and> length r' = length r
        \<and> (\<forall>idx<length r. r ! idx = - (r' ! idx))"
    by simp
  from poly_poisson_antisymmetric [OF tables_ok_init h(3,2,5,4,6)]
  have t2: "poly_poisson 1 (\<lambda>i. 0) [5] 0 [1, 7, 0, 0, 0, 1] 1
      (fst (init_index_tables 1)) (snd (init_index_tables 1))
      (create_encode_dict_from_clmo (snd (init_index_tables 1))) = Inr [0]"
    by simp
  from e1 e2 t1 t2 show ?thesis by (intro conjI)
qed

section \<open>Linear substitution: the result is cleaned\<close>

lemma map_err_result:
  "map_err f xs = Inr ys \<Longrightarrow> length ys = length xs \<and> (\<forall>i<length xs. f (xs ! i) = Inr (ys ! i))"
proof (induction xs arbitrary: ys)
  case Nil
  then show ?case by simp
next
  case (Cons x xs)
  from Cons.prems obtain y ys' where y: "f x = Inr y" "map_err f xs = Inr ys'" "ys = y # ys'"
    by (cases "f x"; cases "map_err f xs") auto
  from Cons.IH [OF y(2)] y(1,3) show ?case
    by (auto simp: nth_Cons')
qed

lemma poly_clean_fresh:
  "poly_clean p tol (replicate (length p) 0) = Inr (map (\<lambda>c. if cmod c \<le> tol then 0 else c) p)"
proof -
  have "poly_clean p tol (replicate (length p) 0)
          = Inr (map (\<lambda>i. if cmod (p ! i) \<le> tol then 0 else p ! i) [0..<length p])"
    unfolding poly_clean_def using poly_clean_loop [of "length p" p "replicate (length p) 0" tol]
    by simp
  also have "map (\<lambda>i. if cmod (p ! i) \<le> tol then 0 else p ! i) [0..<length p]
               = map (\<lambda>c. if cmod c \<le> tol then 0 else c) p"
    by (intro nth_equalityI) simp_all
  finally show ?thesis .
qed

lemma polynomial_clean_result:
  assumes "polynomial_clean poly tol = Inr out"
  shows "out = map (map (\<lambda>c. if cmod c \<le> tol then 0 else c)) poly"
proof -
  from map_err_result [OF assms [unfolded polynomial_clean_def]]
  have "length out = length poly" "\<forall>i<length poly. out ! i = map (\<lambda>c. if cmod c \<le> tol then 0 else c) (poly ! i)"
    by (simp_all add: poly_clean_fresh)
  then show ?thesis by (intro nth_equalityI) simp_all
qed

text \<open>
  C8. Whatever graded polynomial and matrix \<^verbatim>\<open>substitute_linear\<close> is given, the graded
  polynomial it returns is the accumulated sum of the substituted terms cleaned at the
  tolerance \<^verbatim>\<open>1e-14\<close>: no coefficient of it is nonzero with a modulus of at most
  \<^verbatim>\<open>1e-14\<close>.
\<close>

theorem substitute_linear_cleaned:
  assumes "substitute_linear nT tid_of poly_old C max_deg psi clmo enc = Inr poly_new"
  shows "(\<exists>acc. substitute_linear_terms nT tid_of poly_old C max_deg psi clmo enc = Inr acc
            \<and> poly_new = map (map (\<lambda>c. if cmod c \<le> 1 / 10 ^ 14 then 0 else c)) acc)
         \<and> (\<forall>d<length poly_new. \<forall>i<length (poly_new ! d).
               \<not> (poly_new ! d ! i \<noteq> 0 \<and> cmod (poly_new ! d ! i) \<le> 1 / 10 ^ 14))"
proof -
  from assms obtain acc where
    acc: "substitute_linear_terms nT tid_of poly_old C max_deg psi clmo enc = Inr acc"
      "polynomial_clean acc (1 / 10 ^ 14) = Inr poly_new"
    unfolding substitute_linear_def
    by (cases "substitute_linear_terms nT tid_of poly_old C max_deg psi clmo enc") auto
  from polynomial_clean_result [OF acc(2)]
  have eq: "poly_new = map (map (\<lambda>c. if cmod c \<le> 1 / 10 ^ 14 then 0 else c)) acc" .
  have "\<forall>d<length poly_new. \<forall>i<length (poly_new ! d).
               \<not> (poly_new ! d ! i \<noteq> 0 \<and> cmod (poly_new ! d ! i) \<le> 1 / 10 ^ 14)"
    unfolding eq by simp
  with acc(1) eq show ?thesis by blast
qed

theorem substitute_linear_cleaned_witness:
  "substitute_linear_terms 1 (\<lambda>i. 0) [[2], [0, 0, 0, 0, 0, 3]]
     [[0, 1 / 10 ^ 15, 0, 0, 0, 0], [1, 0, 0, 0, 0, 0], [0, 0, 1, 0, 0, 0],
      [0, 0, 0, 1, 0, 0], [0, 0, 0, 0, 1, 0], [0, 0, 0, 0, 0, 1]] 1
     (fst (init_index_tables 1)) (snd (init_index_tables 1))
     (create_encode_dict_from_clmo (snd (init_index_tables 1)))
     = Inr [[2], [0, 0, 0, 0, 3 / 10 ^ 15, 0]]
   \<and> substitute_linear 1 (\<lambda>i. 0) [[2], [0, 0, 0, 0, 0, 3]]
     [[0, 1 / 10 ^ 15, 0, 0, 0, 0], [1, 0, 0, 0, 0, 0], [0, 0, 1, 0, 0, 0],
      [0, 0, 0, 1, 0, 0], [0, 0, 0, 0, 1, 0], [0, 0, 0, 0, 0, 1]] 1
     (fst (init_index_tables 1)) (snd (init_index_tables 1))
     (create_encode_dict_from_clmo (snd (init_index_tables 1)))
     = Inr [[2], [0, 0, 0, 0, 0, 0]]
   \<and> (\<exists>poly_new. substitute_linear 1 (\<lambda>i. 0) [[2], [0, 0, 0, 0, 0, 3]]
         [[0, 1 / 10 ^ 15, 0, 0, 0, 0], [1, 0, 0, 0, 0, 0], [0, 0, 1, 0, 0, 0],
          [0, 0, 0, 1, 0, 0], [0, 0, 0, 0, 1, 0], [0, 0, 0, 0, 0, 1]] 1
         (fst (init_index_tables 1)) (snd (init_index_tables 1))
         (create_encode_dict_from_clmo (snd (init_index_tables 1))) = Inr poly_new
       \<and> (\<forall>d<length poly_new. \<forall>i<length (poly_new ! d).
             \<not> (poly_new ! d ! i \<noteq> 0 \<and> cmod (poly_new ! d ! i) \<le> 1 / 10 ^ 14)))"
proof -
  note ev = substitute_linear_terms_def linear_variable_polys_def
      polynomial_power_def polynomial_multiply_def polynomial_add_inplace_def
      polynomial_variable_def polynomial_zero_list_def poly_add_def
      poly_mul_def init_index_tables_def
      N_VARS_def rd2_def eval_nat_numeral create_encode_dict_from_clmo_def decode_multiindex_def
      add_exponents_def encode_multiindex_def add_at2_def reduce_rows_def nth_append
  have t: "substitute_linear_terms 1 (\<lambda>i. 0) [[2], [0, 0, 0, 0, 0, 3]]
     [[0, 1 / 10 ^ 15, 0, 0, 0, 0], [1, 0, 0, 0, 0, 0], [0, 0, 1, 0, 0, 0],
      [0, 0, 0, 1, 0, 0], [0, 0, 0, 0, 1, 0], [0, 0, 0, 0, 0, 1]] 1
     (fst (init_index_tables 1)) (snd (init_index_tables 1))
     (create_encode_dict_from_clmo (snd (init_index_tables 1)))
     = Inr [[2], [0, 0, 0, 0, 3 / 10 ^ 15, 0]]"
    by (simp add: ev)
  then have s: "substitute_linear 1 (\<lambda>i. 0) [[2], [0, 0, 0, 0, 0, 3]]
     [[0, 1 / 10 ^ 15, 0, 0, 0, 0], [1, 0, 0, 0, 0, 0], [0, 0, 1, 0, 0, 0],
      [0, 0, 0, 1, 0, 0], [0, 0, 0, 0, 1, 0], [0, 0, 0, 0, 0, 1]] 1
     (fst (init_index_tables 1)) (snd (init_index_tables 1))
     (create_encode_dict_from_clmo (snd (init_index_tables 1)))
     = Inr [[2], [0, 0, 0, 0, 0, 0]]"
    by (simp add: substitute_linear_def polynomial_clean_def poly_clean_fresh norm_divide norm_power)
  from substitute_linear_cleaned [OF s] t s show ?thesis by blast
qed

section \<open>The homological identity\<close>

lemma explicit6:
  assumes "length (k :: nat list) = N_VARS"
  shows "\<exists>a b c d e f. k = [a, b, c, d, e, f]"
  using assms by (auto simp: N_VARS_def length_Suc_conv eval_nat_numeral)

lemma unit_add:
  assumes "length (k :: nat list) = N_VARS" "v < N_VARS"
  shows "map2 (+) ((replicate N_VARS 0)[v := 1]) k = k[v := Suc (k ! v)]"
  using assms by (intro nth_equalityI) (auto simp: nth_list_update)

lemma H2_block_ok:
  assumes ok: "tables_ok D psi clmo enc" and D: "2 \<le> D"
  shows "\<exists>h. H2_block lam w1 w2 psi enc = Inr h \<and> length h = length (clmo ! 2)
           \<and> (\<forall>i<length (clmo ! 2). h ! i = H2_coeff lam w1 w2 (clmo ! 2 ! i))"
proof -
  define n where "n = length (clmo ! 2)"
  have tup: "length k = N_VARS \<and> sum_list k = 2"
    if "k \<in> {[1, 0, 0, 1, 0, 0], [0, 1, 0, 0, 1, 0], [0, 0, 1, 0, 0, 1]}" for k :: "nat list"
    using that by (auto simp: N_VARS_def)
  have pos: "\<exists>i<n. clmo ! 2 ! i = k \<and> encode_multiindex k 2 enc = int i"
    if "k \<in> {[1, 0, 0, 1, 0, 0], [0, 1, 0, 0, 1, 0], [0, 0, 1, 0, 0, 1]}" for k :: "nat list"
  proof -
    from tables_ok_find [OF ok D] tup [OF that] obtain i where "i < length (clmo ! 2)" "clmo ! 2 ! i = k"
      by blast
    with tables_ok_encode [OF ok D, of k i] show ?thesis by (auto simp: n_def)
  qed
  from pos [of "[1, 0, 0, 1, 0, 0]"] obtain i0 where
    i0: "i0 < n" "clmo ! 2 ! i0 = [1, 0, 0, 1, 0, 0]" "encode_multiindex [1, 0, 0, 1, 0, 0] 2 enc = int i0"
    by auto
  from pos [of "[0, 1, 0, 0, 1, 0]"] obtain i1 where
    i1: "i1 < n" "clmo ! 2 ! i1 = [0, 1, 0, 0, 1, 0]" "encode_multiindex [0, 1, 0, 0, 1, 0] 2 enc = int i1"
    by auto
  from pos [of "[0, 0, 1, 0, 0, 1]"] obtain i2 where
    i2: "i2 < n" "clmo ! 2 ! i2 = [0, 0, 1, 0, 0, 1]" "encode_multiindex [0, 0, 1, 0, 0, 1] 2 enc = int i2"
    by auto
  let ?h = "(replicate n 0)[i0 := of_real lam, i1 := \<i> * of_real w1, i2 := \<i> * of_real w2]"
  have "H2_block lam w1 w2 psi enc = Inr ?h"
    using tables_ok_psi [OF ok D] i0 i1 i2 by (simp add: H2_block_def wr_py_def n_def)
  moreover have "?h ! i = H2_coeff lam w1 w2 (clmo ! 2 ! i)" if i: "i < n" for i
  proof -
    have "clmo ! 2 ! i = clmo ! 2 ! j \<longleftrightarrow> i = j" if "j < n" for j
      using tables_ok_unique [OF ok D, of i j] i that by (simp add: n_def)
    from this [OF i0(1)] this [OF i1(1)] this [OF i2(1)] i0 i1 i2 i
    show ?thesis
      by (auto simp: H2_coeff_def nth_list_update)
  qed
  ultimately show ?thesis by (auto simp: n_def)
qed

lemma H2_coeff_bump:
  assumes k: "length (k :: nat list) = N_VARS" "sum_list k = 1" and m: "m < 3"
  shows "H2_coeff lam w1 w2 (k[m := Suc (k ! m)]) * of_nat (Suc (k ! m))
           = (if k = (replicate N_VARS 0)[m + 3 := 1]
              then [of_real lam, \<i> * of_real w1, \<i> * of_real w2] ! m else 0)"
    and "H2_coeff lam w1 w2 (k[m + 3 := Suc (k ! (m + 3))]) * of_nat (Suc (k ! (m + 3)))
           = (if k = (replicate N_VARS 0)[m := 1]
              then [of_real lam, \<i> * of_real w1, \<i> * of_real w2] ! m else 0)"
proof -
  from explicit6 [OF k(1)] obtain a b c d e f where kk: "k = [a, b, c, d, e, f]" by blast
  from m have "m = 0 \<or> m = 1 \<or> m = 2" by auto
  with k(2) show "H2_coeff lam w1 w2 (k[m := Suc (k ! m)]) * of_nat (Suc (k ! m))
           = (if k = (replicate N_VARS 0)[m + 3 := 1]
              then [of_real lam, \<i> * of_real w1, \<i> * of_real w2] ! m else 0)"
    unfolding kk by (auto simp: H2_coeff_def N_VARS_def eval_nat_numeral)
  from \<open>m = 0 \<or> m = 1 \<or> m = 2\<close> k(2)
  show "H2_coeff lam w1 w2 (k[m + 3 := Suc (k ! (m + 3))]) * of_nat (Suc (k ! (m + 3)))
           = (if k = (replicate N_VARS 0)[m := 1]
              then [of_real lam, \<i> * of_real w1, \<i> * of_real w2] ! m else 0)"
    unfolding kk by (auto simp: H2_coeff_def N_VARS_def eval_nat_numeral)
qed

lemma H2_diff:
  assumes ok: "tables_ok D psi clmo enc" and D: "2 \<le> D"
    and h: "length h = length (clmo ! 2)"
    and hc: "\<forall>i<length (clmo ! 2). h ! i = H2_coeff lam w1 w2 (clmo ! 2 ! i)"
    and v: "v < N_VARS"
    and tid: "\<forall>i. tid_of i < nT"
  shows "\<exists>a. poly_diff nT tid_of h v 2 psi clmo enc = Inr a \<and> length a = length (clmo ! 1)
           \<and> (\<forall>j<length (clmo ! 1). a ! j =
                H2_coeff lam w1 w2 ((clmo ! 1 ! j)[v := Suc (clmo ! 1 ! j ! v)])
                  * of_nat (Suc (clmo ! 1 ! j ! v)))"
proof -
  from D have D1: "1 \<le> D" by simp
  from poly_diff_coeff [OF ok _ D h v, of tid_of nT] tid obtain a where
    a: "poly_diff nT tid_of h v 2 psi clmo enc = Inr a" "length a = length (clmo ! 1)"
      "\<And>idx i. idx < length (clmo ! 1) \<Longrightarrow> i < length (clmo ! 2) \<Longrightarrow>
         clmo ! 2 ! i = (clmo ! 1 ! idx)[v := clmo ! 1 ! idx ! v + 1]
         \<Longrightarrow> a ! idx = h ! i * of_nat (clmo ! 1 ! idx ! v + 1)"
    by (auto simp: numeral_2_eq_2)
  have "a ! j = H2_coeff lam w1 w2 ((clmo ! 1 ! j)[v := Suc (clmo ! 1 ! j ! v)])
                  * of_nat (Suc (clmo ! 1 ! j ! v))" if j: "j < length (clmo ! 1)" for j
  proof -
    from bump_tuple [OF tables_ok_tuple [OF ok D1 j] v]
    have "length ((clmo ! 1 ! j)[v := clmo ! 1 ! j ! v + 1]) = N_VARS"
      "sum_list ((clmo ! 1 ! j)[v := clmo ! 1 ! j ! v + 1]) = 2" by simp_all
    from tables_ok_find [OF ok D this] obtain i where
      i: "i < length (clmo ! 2)" "clmo ! 2 ! i = (clmo ! 1 ! j)[v := clmo ! 1 ! j ! v + 1]"
      by blast
    from a(3) [OF j i] hc i show ?thesis by simp
  qed
  with a(1,2) show ?thesis by blast
qed

lemma divisor_big:
  assumes "k ! 0 \<noteq> k ! 3"
  shows "\<bar>lam\<bar> \<le> cmod (divisor lam w1 w2 k)"
proof -
  have "Re (divisor lam w1 w2 k) = of_int (int (k ! 3) - int (k ! 0)) * lam"
    by (simp add: divisor_def)
  moreover have "\<bar>lam\<bar> \<le> \<bar>of_int (int (k ! 3) - int (k ! 0)) * lam\<bar>"
  proof -
    from assms have "1 \<le> \<bar>int (k ! 3) - int (k ! 0)\<bar>" by simp
    then have "1 \<le> \<bar>(of_int (int (k ! 3) - int (k ! 0)) :: real)\<bar>"
      by (metis of_int_1_le_iff of_int_abs)
    then have "1 * \<bar>lam\<bar> \<le> \<bar>(of_int (int (k ! 3) - int (k ! 0)) :: real)\<bar> * \<bar>lam\<bar>"
      by (intro mult_right_mono) simp_all
    then show ?thesis by (simp add: abs_mult)
  qed
  ultimately show ?thesis
    using abs_Re_le_cmod [of "divisor lam w1 w2 k"] by simp
qed

lemma solve_homological_ok:
  assumes ok: "tables_ok D psi clmo enc" and n: "n \<le> D"
    and len: "length H = length (clmo ! n)"
    and lam: "lam \<noteq> 0" and eps: "eps \<le> \<bar>lam\<bar>"
  shows "solve_homological_equation H n [of_real lam, \<i> * of_real w1, \<i> * of_real w2] clmo eps
     = Inr (map (\<lambda>i. if clmo ! n ! i ! 0 = clmo ! n ! i ! 3 then 0
                       else - H ! i / divisor lam w1 w2 (clmo ! n ! i)) [0..<length H])"
proof -
  define B where "B = (\<lambda>i G.
       bind_err (rd H i) (\<lambda>c.
       bind_err (decode_multiindex i n clmo) (\<lambda>k.
       bind_err (rd k 0) (\<lambda>k0. bind_err (rd k 1) (\<lambda>k1. bind_err (rd k 2) (\<lambda>k2.
       bind_err (rd k 3) (\<lambda>k3. bind_err (rd k 4) (\<lambda>k4. bind_err (rd k 5) (\<lambda>k5.
       if k0 = k3 then Inr G
       else
         bind_err (rd [of_real lam, \<i> * of_real w1, \<i> * of_real w2] 0) (\<lambda>eta0.
         bind_err (rd [of_real lam, \<i> * of_real w1, \<i> * of_real w2] 1) (\<lambda>eta1.
         bind_err (rd [of_real lam, \<i> * of_real w1, \<i> * of_real w2] 2) (\<lambda>eta2.
         let denom = of_int (int k3 - int k0) * eta0 + of_int (int k4 - int k1) * eta1
                       + of_int (int k5 - int k2) * eta2 in
         if cmod denom < eps then Inl ResonanceError
         else wr G i (- c / denom)))))))))))))"
  define f where "f i = (if clmo ! n ! i ! 0 = clmo ! n ! i ! 3 then 0
                       else - H ! i / divisor lam w1 w2 (clmo ! n ! i))" for i
  have body: "B m s = (if clmo ! n ! m ! 0 = clmo ! n ! m ! 3 then Inr s else wr s m (f m))"
    if m: "m < length H" for m s
  proof -
    let ?k = "clmo ! n ! m"
    from m len have m': "m < length (clmo ! n)" by simp
    note dec = tables_ok_decode [OF ok n m']
    from tables_ok_tuple(1) [OF ok n m'] have rdk: "rd ?k j = Inr (?k ! j)" if "j < 6" for j
      using that by (simp add: N_VARS_def)
    have big: "?k ! 0 \<noteq> ?k ! 3 \<longrightarrow> \<not> cmod (divisor lam w1 w2 ?k) < eps"
      using divisor_big [of ?k lam w1 w2] eps by auto
    show ?thesis
      unfolding B_def f_def
      using big [unfolded divisor_def] m by (simp add: dec rdk Let_def divisor_def)
  qed
  have loop: "for_range m B (replicate (length H) 0)
                = Inr (map f [0..<m] @ replicate (length H - m) 0)" if "m \<le> length H" for m
    using that
  proof (induction m)
    case 0
    show ?case by simp
  next
    case (Suc m)
    then have m: "m < length H" by simp
    have rep: "replicate (length H - m) (0::complex) = 0 # replicate (length H - Suc m) 0"
      using m by (simp add: Suc_diff_Suc replicate_Suc [symmetric] del: replicate_Suc)
    have "for_range (Suc m) B (replicate (length H) 0)
            = B m (map f [0..<m] @ 0 # replicate (length H - Suc m) 0)"
      using Suc m by (simp add: rep)
    also have "\<dots> = Inr (map f [0..<Suc m] @ replicate (length H - Suc m) 0)"
      unfolding body [OF m] by (simp add: list_update_append f_def)
    finally show ?case .
  qed
  have "solve_homological_equation H n [of_real lam, \<i> * of_real w1, \<i> * of_real w2] clmo eps
          = for_range (length H) B (replicate (length H) 0)"
    by (simp add: solve_homological_equation_def B_def)
  also have "\<dots> = Inr (map f [0..<length H])"
    using loop [of "length H"] by simp
  finally show ?thesis by (simp add: f_def)
qed

lemma euler_term:
  assumes ok: "tables_ok D psi clmo enc" and n: "0 < n" "n \<le> D"
    and la: "length a = length (clmo ! 1)"
    and ac: "\<forall>j<length (clmo ! 1). a ! j = (if clmo ! 1 ! j = (replicate N_VARS 0)[v := 1] then c else 0)"
    and lG: "length G = length (clmo ! n)"
    and v: "v < N_VARS"
    and tid: "\<forall>i. tid_of i < nT"
  shows "\<exists>g t. poly_diff nT tid_of G v n psi clmo enc = Inr g
           \<and> poly_mul nT tid_of a 1 g (n - 1) psi clmo enc = Inr t
           \<and> length t = length (clmo ! n)
           \<and> (\<forall>idx<length (clmo ! n). t ! idx = c * of_nat (clmo ! n ! idx ! v) * G ! idx)"
proof -
  from n have D1: "1 \<le> D" and n1: "n - 1 \<le> D" and dsum: "1 + (n - 1) \<le> D" "1 + (n - 1) = n"
    by simp_all
  from poly_diff_coeff [OF ok n lG v, of tid_of nT] tid obtain g where
    g: "poly_diff nT tid_of G v n psi clmo enc = Inr g" "length g = length (clmo ! (n - 1))"
      "\<And>idx i. idx < length (clmo ! (n - 1)) \<Longrightarrow> i < length (clmo ! n) \<Longrightarrow>
         clmo ! n ! i = (clmo ! (n - 1) ! idx)[v := clmo ! (n - 1) ! idx ! v + 1]
         \<Longrightarrow> g ! idx = G ! i * of_nat (clmo ! (n - 1) ! idx ! v + 1)"
    by auto
  from poly_mul_tables [OF ok dsum(1) la g(2) tid] obtain t where
    t: "poly_mul nT tid_of a 1 g (n - 1) psi clmo enc = Inr t" "length t = length (clmo ! n)"
       "\<And>idx. idx < length (clmo ! n) \<Longrightarrow> t ! idx =
          (\<Sum>i<length a. \<Sum>j<length g.
             if map2 (+) (clmo ! 1 ! i) (clmo ! (n - 1) ! j) = clmo ! n ! idx
             then a ! i * g ! j else 0)"
    unfolding dsum(2) by auto
  let ?e = "(replicate N_VARS 0)[v := 1::nat]"
  have e: "length ?e = N_VARS" "sum_list ?e = 1"
    using v sum_list_bump [of v "replicate N_VARS 0"] by simp_all
  from tables_ok_find [OF ok D1 e] obtain i0 where
    i0: "i0 < length (clmo ! 1)" "clmo ! 1 ! i0 = ?e" by blast
  have "t ! idx = c * of_nat (clmo ! n ! idx ! v) * G ! idx" if idx: "idx < length (clmo ! n)" for idx
  proof -
    let ?K = "clmo ! n ! idx"
    let ?S = "\<Sum>j<length g. if (clmo ! (n - 1) ! j)[v := Suc (clmo ! (n - 1) ! j ! v)] = ?K
                              then c * g ! j else 0"
    note K = tables_ok_tuple [OF ok n(2) idx]
    have bump: "map2 (+) (clmo ! 1 ! i0) (clmo ! (n - 1) ! j)
                  = (clmo ! (n - 1) ! j)[v := Suc (clmo ! (n - 1) ! j ! v)]" if "j < length g" for j
      using unit_add [OF tables_ok_tuple(1) [OF ok n1] v, of j] that g(2) i0(2) by simp
    have inner: "(\<Sum>j<length g. if map2 (+) (clmo ! 1 ! i) (clmo ! (n - 1) ! j) = ?K
                                 then a ! i * g ! j else 0)
                  = (if i = i0 then ?S else 0)" if i: "i < length a" for i
    proof (cases "i = i0")
      case True
      from ac i0 have "a ! i0 = c" by simp
      with True bump show ?thesis
        by (auto intro!: sum.cong)
    next
      case False
      from tables_ok_unique [OF ok D1 _ i0(1), of i] i la i0(2) False
      have "clmo ! 1 ! i \<noteq> ?e" by auto
      with ac i la have "a ! i = 0" by simp
      with False show ?thesis by (auto intro!: sum.neutral)
    qed
    have "t ! idx = (\<Sum>i<length a. if i = i0 then ?S else 0)"
      unfolding t(3) [OF idx] by (rule sum.cong [OF refl], rule inner) simp
    also have "\<dots> = ?S"
      using i0(1) la by (simp add: sum.delta)
    also have "?S = c * of_nat (?K ! v) * G ! idx"
    proof (cases "?K ! v = 0")
      case True
      have "(clmo ! (n - 1) ! j)[v := Suc (clmo ! (n - 1) ! j ! v)] \<noteq> ?K" if j: "j < length g" for j
      proof
        assume eq: "(clmo ! (n - 1) ! j)[v := Suc (clmo ! (n - 1) ! j ! v)] = ?K"
        from tables_ok_tuple(1) [OF ok n1, of j] j g(2) v
        have "(clmo ! (n - 1) ! j)[v := Suc (clmo ! (n - 1) ! j ! v)] ! v = Suc (clmo ! (n - 1) ! j ! v)"
          by simp
        with eq True show False by simp
      qed
      then have "?S = 0" by (intro sum.neutral) simp
      with True show ?thesis by simp
    next
      case False
      let ?K' = "?K[v := ?K ! v - 1]"
      from K(1) v False have K': "length ?K' = N_VARS" "?K'[v := Suc (?K' ! v)] = ?K"
        by simp_all
      from sum_list_bump [of v ?K'] K' K v have "sum_list ?K' = n - 1" by simp
      from tables_ok_find [OF ok n1 K'(1) this] obtain j0 where
        j0: "j0 < length (clmo ! (n - 1))" "clmo ! (n - 1) ! j0 = ?K'" by blast
      have uniq: "(clmo ! (n - 1) ! j)[v := Suc (clmo ! (n - 1) ! j ! v)] = ?K \<longleftrightarrow> j = j0"
        if j: "j < length g" for j
      proof
        assume "(clmo ! (n - 1) ! j)[v := Suc (clmo ! (n - 1) ! j ! v)] = ?K"
        with K'(2) have "(clmo ! (n - 1) ! j)[v := clmo ! (n - 1) ! j ! v + 1] = ?K'[v := ?K' ! v + 1]"
          by simp
        from bump_inj [OF _ _ this] tables_ok_tuple(1) [OF ok n1, of j] j g(2) K'(1) v
        have "clmo ! (n - 1) ! j = ?K'" by simp
        with tables_ok_unique [OF ok n1 _ j0(1), of j] j g(2) j0(2) show "j = j0" by simp
      next
        assume "j = j0"
        with j0(2) K'(2) show "(clmo ! (n - 1) ! j)[v := Suc (clmo ! (n - 1) ! j ! v)] = ?K" by simp
      qed
      have "?S = c * g ! j0"
        using j0(1) g(2) uniq by (intro sum_collapse) simp_all
      also have "g ! j0 = G ! idx * of_nat (?K' ! v + 1)"
        using g(3) [OF j0(1) idx] j0(2) K'(2) by simp
      also have "?K' ! v + 1 = ?K ! v"
        using K(1) v False by simp
      finally show ?thesis by simp
    qed
    finally show ?thesis .
  qed
  with g(1) t(1,2) show ?thesis by blast
qed

lemma poisson_H2_terms:
  assumes ok: "tables_ok D psi clmo enc" and D: "2 \<le> D" and n: "0 < n" "n \<le> D"
    and h: "length h = length (clmo ! 2)"
    and hc: "\<forall>i<length (clmo ! 2). h ! i = H2_coeff lam w1 w2 (clmo ! 2 ! i)"
    and lG: "length G = length (clmo ! n)"
    and m: "m < 3"
    and tid: "\<forall>i. tid_of i < nT"
    and idx: "idx < length (clmo ! n)"
  shows "poisson_term1 nT tid_of h 2 G n psi clmo enc m ! idx
           = [of_real lam, \<i> * of_real w1, \<i> * of_real w2] ! m
               * of_nat (clmo ! n ! idx ! (m + 3)) * G ! idx"
    and "poisson_term2 nT tid_of h 2 G n psi clmo enc m ! idx
           = [of_real lam, \<i> * of_real w1, \<i> * of_real w2] ! m
               * of_nat (clmo ! n ! idx ! m) * G ! idx"
proof -
  let ?eta = "[of_real lam, \<i> * of_real w1, \<i> * of_real w2] ! m"
  from D have D1: "1 \<le> D" by simp
  from m have v: "m < N_VARS" "m + 3 < N_VARS" by (simp_all add: N_VARS_def)
  from H2_diff [OF ok D h hc v(1) tid] obtain a where
    a: "poly_diff nT tid_of h m 2 psi clmo enc = Inr a" "length a = length (clmo ! 1)"
      "\<And>j. j < length (clmo ! 1) \<Longrightarrow> a ! j =
          H2_coeff lam w1 w2 ((clmo ! 1 ! j)[m := Suc (clmo ! 1 ! j ! m)])
            * of_nat (Suc (clmo ! 1 ! j ! m))"
    by blast
  have ac: "\<forall>j<length (clmo ! 1). a ! j
              = (if clmo ! 1 ! j = (replicate N_VARS 0)[m + 3 := 1] then ?eta else 0)"
    using a(3) H2_coeff_bump(1) [OF tables_ok_tuple [OF ok D1] m] by simp
  from euler_term [OF ok n a(2) ac lG v(2) tid] obtain g t where
    gt: "poly_diff nT tid_of G (m + 3) n psi clmo enc = Inr g"
      "poly_mul nT tid_of a 1 g (n - 1) psi clmo enc = Inr t"
      "\<And>idx. idx < length (clmo ! n) \<Longrightarrow> t ! idx = ?eta * of_nat (clmo ! n ! idx ! (m + 3)) * G ! idx"
    by blast
  have "poisson_term1 nT tid_of h 2 G n psi clmo enc m = t"
    using a(1) gt(1,2) by (simp add: poisson_term1_def)
  with gt(3) [OF idx]
  show "poisson_term1 nT tid_of h 2 G n psi clmo enc m ! idx
           = ?eta * of_nat (clmo ! n ! idx ! (m + 3)) * G ! idx" by simp
  from H2_diff [OF ok D h hc v(2) tid] obtain b where
    b: "poly_diff nT tid_of h (m + 3) 2 psi clmo enc = Inr b" "length b = length (clmo ! 1)"
      "\<And>j. j < length (clmo ! 1) \<Longrightarrow> b ! j =
          H2_coeff lam w1 w2 ((clmo ! 1 ! j)[m + 3 := Suc (clmo ! 1 ! j ! (m + 3))])
            * of_nat (Suc (clmo ! 1 ! j ! (m + 3)))"
    by blast
  have bc: "\<forall>j<length (clmo ! 1). b ! j
              = (if clmo ! 1 ! j = (replicate N_VARS 0)[m := 1] then ?eta else 0)"
    using b(3) H2_coeff_bump(2) [OF tables_ok_tuple [OF ok D1] m] by simp
  from euler_term [OF ok n b(2) bc lG v(1) tid] obtain g' t' where
    gt': "poly_diff nT tid_of G m n psi clmo enc = Inr g'"
      "poly_mul nT tid_of b 1 g' (n - 1) psi clmo enc = Inr t'"
      "\<And>idx. idx < length (clmo ! n) \<Longrightarrow> t' ! idx = ?eta * of_nat (clmo ! n ! idx ! m) * G ! idx"
    by blast
  have "poisson_term2 nT tid_of h 2 G n psi clmo enc m = t'"
    using b(1) gt'(1,2) by (simp add: poisson_term2_def)
  with gt'(3) [OF idx]
  show "poisson_term2 nT tid_of h 2 G n psi clmo enc m ! idx
           = ?eta * of_nat (clmo ! n ! idx ! m) * G ! idx" by simp
qed

lemma divisor_sum:
  "(\<Sum>m<3. [of_real lam, \<i> * of_real w1, \<i> * of_real w2] ! m * of_nat (k ! (m + 3)) * x
            - [of_real lam, \<i> * of_real w1, \<i> * of_real w2] ! m * of_nat (k ! m) * x)
     = divisor lam w1 w2 k * x"
  by (simp add: divisor_def eval_nat_numeral algebra_simps)

lemma poisson_H2:
  assumes ok: "tables_ok D psi clmo enc" and D: "2 \<le> D" and n: "0 < n" "n \<le> D"
    and h: "length h = length (clmo ! 2)"
    and hc: "\<forall>i<length (clmo ! 2). h ! i = H2_coeff lam w1 w2 (clmo ! 2 ! i)"
    and lG: "length G = length (clmo ! n)"
    and tid: "\<forall>i. tid_of i < nT"
  shows "poly_poisson nT tid_of h 2 G n psi clmo enc
           = Inr (map (\<lambda>i. divisor lam w1 w2 (clmo ! n ! i) * G ! i) [0..<length G])"
proof -
  from n D have degs: "1 \<le> (2::nat)" "1 \<le> n" "2 \<le> D" "n \<le> D" "2 + n - 2 \<le> D" and dr: "2 + n - 2 = n"
    by simp_all
  from poly_poisson_sum [OF ok degs h lG tid] obtain r where
    r: "poly_poisson nT tid_of h 2 G n psi clmo enc = Inr r" "length r = length (clmo ! n)"
      "\<And>idx. idx < length r \<Longrightarrow> r ! idx =
         (\<Sum>m<3. poisson_term1 nT tid_of h 2 G n psi clmo enc m ! idx
                 - poisson_term2 nT tid_of h 2 G n psi clmo enc m ! idx)"
    unfolding dr by blast
  have "r = map (\<lambda>i. divisor lam w1 w2 (clmo ! n ! i) * G ! i) [0..<length G]"
  proof (rule nth_equalityI)
    show "length r = length (map (\<lambda>i. divisor lam w1 w2 (clmo ! n ! i) * G ! i) [0..<length G])"
      using r(2) lG by simp
  next
    fix idx assume "idx < length r"
    with r(2) have idx: "idx < length (clmo ! n)" by simp
    have "r ! idx = (\<Sum>m<3. [of_real lam, \<i> * of_real w1, \<i> * of_real w2] ! m
                                * of_nat (clmo ! n ! idx ! (m + 3)) * G ! idx
                            - [of_real lam, \<i> * of_real w1, \<i> * of_real w2] ! m
                                * of_nat (clmo ! n ! idx ! m) * G ! idx)"
      unfolding r(3) [OF \<open>idx < length r\<close>]
      by (rule sum.cong [OF refl])
         (simp only: lessThan_iff poisson_H2_terms [OF ok D n h hc lG _ tid idx])
    also have "\<dots> = divisor lam w1 w2 (clmo ! n ! idx) * G ! idx"
      by (rule divisor_sum)
    finally show "r ! idx = map (\<lambda>i. divisor lam w1 w2 (clmo ! n ! i) * G ! i) [0..<length G] ! idx"
      using idx lG by simp
  qed
  with r(1) show ?thesis by simp
qed

text \<open>
  C2. Let the tables reach degree two and degree \<open>n\<close>, let \<open>H_bad\<close> be an array of
  degree \<open>n\<close> that is zero at every good position (\<open>k[0] = k[3]\<close>), and let \<open>\<lambda> \<noteq> 0\<close> with
  the threshold of a resonance not above \<open>|\<lambda>|\<close>. Then the solver returns an array \<open>G\<close>
  whose coefficient at a bad position \<open>k\<close> is
  \<open>-H_bad[k] / (\<lambda>(k[3]-k[0]) + i\<omega>\<^sub>1(k[4]-k[1]) + i\<omega>\<^sub>2(k[5]-k[2]))\<close> and at a good position is
  zero, and \<^verbatim>\<open>_poly_poisson(H2, 2, G, n)\<close> returns \<open>-H_bad\<close>. Coefficients are exact
  complex numbers here, so the bracket is equal to \<open>-H_bad\<close>, which is inside every
  tolerance.
\<close>

theorem homological_identity:
  assumes ok: "tables_ok D psi clmo enc" and D: "2 \<le> D" and n: "n \<le> D"
    and len: "length H_bad = psi ! N_VARS ! n"
    and bad: "\<forall>i<length H_bad. clmo ! n ! i ! 0 = clmo ! n ! i ! 3 \<longrightarrow> H_bad ! i = 0"
    and lam: "lam \<noteq> 0" and eps: "eps \<le> \<bar>lam\<bar>"
    and tid: "\<forall>i. tid_of i < nT"
  shows "\<exists>H2 G.
           H2_block lam w1 w2 psi enc = Inr H2
           \<and> solve_homological_equation H_bad n
                [of_real lam, \<i> * of_real w1, \<i> * of_real w2] clmo eps = Inr G
           \<and> length G = length H_bad
           \<and> (\<forall>i<length G. G ! i =
                 (if clmo ! n ! i ! 0 = clmo ! n ! i ! 3 then 0
                  else - H_bad ! i / divisor lam w1 w2 (clmo ! n ! i)))
           \<and> poly_poisson nT tid_of H2 2 G n psi clmo enc = Inr (map uminus H_bad)"
proof -
  define G where "G = map (\<lambda>i. if clmo ! n ! i ! 0 = clmo ! n ! i ! 3 then 0
                       else - H_bad ! i / divisor lam w1 w2 (clmo ! n ! i)) [0..<length H_bad]"
  from len tables_ok_length [OF ok n] have lH: "length H_bad = length (clmo ! n)" by simp
  from H2_block_ok [OF ok D, of lam w1 w2] obtain h where
    h: "H2_block lam w1 w2 psi enc = Inr h" "length h = length (clmo ! 2)"
      "\<forall>i<length (clmo ! 2). h ! i = H2_coeff lam w1 w2 (clmo ! 2 ! i)"
    by blast
  have sol: "solve_homological_equation H_bad n
                [of_real lam, \<i> * of_real w1, \<i> * of_real w2] clmo eps = Inr G"
    unfolding G_def by (rule solve_homological_ok [OF ok n lH lam eps])
  have lG: "length G = length H_bad" by (simp add: G_def)
  have Gc: "G ! i = (if clmo ! n ! i ! 0 = clmo ! n ! i ! 3 then 0
                  else - H_bad ! i / divisor lam w1 w2 (clmo ! n ! i))" if "i < length G" for i
    using that by (simp add: G_def)
  have prod: "divisor lam w1 w2 (clmo ! n ! i) * G ! i = - H_bad ! i" if i: "i < length H_bad" for i
  proof (cases "clmo ! n ! i ! 0 = clmo ! n ! i ! 3")
    case True
    with bad i Gc [of i] lG show ?thesis by simp
  next
    case False
    from divisor_big [OF False, of lam w1 w2] lam have "divisor lam w1 w2 (clmo ! n ! i) \<noteq> 0"
      by auto
    with False Gc [of i] i lG show ?thesis by simp
  qed
  have "poly_poisson nT tid_of h 2 G n psi clmo enc = Inr (map uminus H_bad)"
  proof (cases "n = 0")
    case True
    from tables_ok_degree0 [OF ok] have c0: "clmo ! 0 = [replicate N_VARS 0]" .
    with lH True have l1: "length H_bad = 1" by simp
    with bad c0 True have "H_bad ! 0 = 0" by (simp add: N_VARS_def)
    with l1 have "H_bad = [0]" by (cases H_bad) simp_all
    moreover have "zeros_psi0 psi = Inr [0]"
      using tables_ok_psi [OF ok, of 0] c0 by (simp add: zeros_psi0_def)
    ultimately show ?thesis using True by (simp add: poly_poisson_def)
  next
    case False
    then have n0: "0 < n" by simp
    from lG lH have lGn: "length G = length (clmo ! n)" by simp
    have "map (\<lambda>i. divisor lam w1 w2 (clmo ! n ! i) * G ! i) [0..<length G] = map uminus H_bad"
      using lG prod by (intro nth_equalityI) simp_all
    with poisson_H2 [OF ok D n0 n h(2,3) lGn tid] show ?thesis by simp
  qed
  with h(1) sol lG Gc show ?thesis by blast
qed

lemma solve_homological_resonance:
  "solve_homological_equation [0, 0, 6, 0, 0, 9] 1 [of_real 0, \<i> * of_real 1, \<i> * of_real 2]
      (snd (init_index_tables 2)) (1 / 10 ^ 14) = Inl ResonanceError"
  by (simp add: solve_homological_equation_def init_index_tables_def N_VARS_def eval_nat_numeral
      decode_multiindex_def nth_append)

theorem homological_identity_witness:
  "H2_block 3 1 2 (fst (init_index_tables 2))
      (create_encode_dict_from_clmo (snd (init_index_tables 2)))
     = Inr [0, 0, 0, 0, 0, 0, 2 * \<i>, 0, 0, 0, 0, \<i>, 0, 0, 0, 0, 0, 3, 0, 0, 0]
   \<and> solve_homological_equation [0, 0, 6, 0, 0, 9] 1 [of_real 3, \<i> * of_real 1, \<i> * of_real 2]
      (snd (init_index_tables 2)) (1 / 10 ^ 14) = Inr [0, 0, - 2, 0, 0, 3]
   \<and> poly_poisson 1 (\<lambda>i. 0) [0, 0, 0, 0, 0, 0, 2 * \<i>, 0, 0, 0, 0, \<i>, 0, 0, 0, 0, 0, 3, 0, 0, 0] 2
      [0, 0, - 2, 0, 0, 3] 1 (fst (init_index_tables 2)) (snd (init_index_tables 2))
      (create_encode_dict_from_clmo (snd (init_index_tables 2)))
     = Inr [0, 0, - 6, 0, 0, - 9]
   \<and> (\<exists>H2 G.
         H2_block 3 1 2 (fst (init_index_tables 2))
           (create_encode_dict_from_clmo (snd (init_index_tables 2))) = Inr H2
         \<and> solve_homological_equation [0, 0, 6, 0, 0, 9] 1
              [of_real 3, \<i> * of_real 1, \<i> * of_real 2] (snd (init_index_tables 2)) (1 / 10 ^ 14)
             = Inr G
         \<and> length G = length [0, 0, 6, 0, 0, 9 :: complex]
         \<and> (\<forall>i<length G. G ! i =
               (if snd (init_index_tables 2) ! 1 ! i ! 0 = snd (init_index_tables 2) ! 1 ! i ! 3 then 0
                else - [0, 0, 6, 0, 0, 9] ! i / divisor 3 1 2 (snd (init_index_tables 2) ! 1 ! i)))
         \<and> poly_poisson 1 (\<lambda>i. 0) H2 2 G 1 (fst (init_index_tables 2)) (snd (init_index_tables 2))
              (create_encode_dict_from_clmo (snd (init_index_tables 2)))
             = Inr (map uminus [0, 0, 6, 0, 0, 9]))"
proof -
  have e0: "H2_block 3 1 2 (fst (init_index_tables 2))
      (create_encode_dict_from_clmo (snd (init_index_tables 2)))
     = Inr [0, 0, 0, 0, 0, 0, 2 * \<i>, 0, 0, 0, 0, \<i>, 0, 0, 0, 0, 0, 3, 0, 0, 0]"
    by (simp add: H2_block_def wr_py_def init_index_tables_def N_VARS_def rd2_def eval_nat_numeral
        create_encode_dict_from_clmo_def encode_multiindex_def nth_append)
  have e1: "solve_homological_equation [0, 0, 6, 0, 0, 9] 1 [of_real 3, \<i> * of_real 1, \<i> * of_real 2]
      (snd (init_index_tables 2)) (1 / 10 ^ 14) = Inr [0, 0, - 2, 0, 0, 3]"
    by (simp add: solve_homological_equation_def init_index_tables_def N_VARS_def eval_nat_numeral
        decode_multiindex_def nth_append)
  have e2: "poly_poisson 1 (\<lambda>i. 0) [0, 0, 0, 0, 0, 0, 2 * \<i>, 0, 0, 0, 0, \<i>, 0, 0, 0, 0, 0, 3, 0, 0, 0] 2
      [0, 0, - 2, 0, 0, 3] 1 (fst (init_index_tables 2)) (snd (init_index_tables 2))
      (create_encode_dict_from_clmo (snd (init_index_tables 2)))
     = Inr [0, 0, - 6, 0, 0, - 9]"
    by (simp add: poly_poisson_def poly_diff_def poly_mul_def zeros_psi0_def init_index_tables_def
        N_VARS_def rd2_def eval_nat_numeral create_encode_dict_from_clmo_def decode_multiindex_def
        fill_exponents_def add_exponents_def encode_multiindex_def add_at2_def reduce_rows_def
        nth_append)
  have h: "(2::nat) \<le> 2" "(1::nat) \<le> 2"
    "length [0, 0, 6, 0, 0, 9 :: complex] = fst (init_index_tables 2) ! N_VARS ! 1"
    "\<forall>i<length [0, 0, 6, 0, 0, 9 :: complex].
       snd (init_index_tables 2) ! 1 ! i ! 0 = snd (init_index_tables 2) ! 1 ! i ! 3
       \<longrightarrow> [0, 0, 6, 0, 0, 9 :: complex] ! i = 0"
    "(3::real) \<noteq> 0" "1 / 10 ^ 14 \<le> \<bar>3::real\<bar>" "\<forall>i::nat. (0::nat) < 1"
    by (simp_all add: init_tables_psi psi_val_6 init_index_tables_def N_VARS_def eval_nat_numeral
        nth_append All_less_Suc)
  from homological_identity [OF tables_ok_init h, of 1 2] e0 e1 e2
  show ?thesis by blast
qed

end
